theory Spec2Isabelle
  imports Complex_Main "HOL-Library.Word" "HOL-Library.Log_Nat"
begin

unbundle bit_operations_syntax

section \<open>IEEE-754 binary formats\<close>

text \<open>
  The codec (\<^verbatim>\<open>formats/quantize.hpp\<close>) works on C++ \<^verbatim>\<open>float\<close> values. A \<^verbatim>\<open>float\<close> is
  modelled by its IEEE-754 binary32 bit pattern: bit 31 is the sign, bits 30..23 the
  biased exponent, bits 22..0 the fraction. A \<^verbatim>\<open>uint8_t\<close> is an \<open>8 word\<close>.
  The quantities the C library functions compute from a float (\<^verbatim>\<open>frexp\<close>, \<^verbatim>\<open>round\<close>) are
  carried as exact rationals; a float that an operation produces is the correctly rounded
  (round to nearest, ties to even) encoding of the exact result.
\<close>

type_synonym float32 = "32 word"
type_synonym uint8 = "8 word"

definition f32_signbit :: "float32 \<Rightarrow> bool" where
  "f32_signbit w = bit w 31"

definition f32_expo :: "float32 \<Rightarrow> int" where
  "f32_expo w = uint (take_bit 8 (drop_bit 23 w))"

definition f32_frac :: "float32 \<Rightarrow> int" where
  "f32_frac w = uint (take_bit 23 w)"

definition f32_isnan :: "float32 \<Rightarrow> bool" where
  "f32_isnan w = (f32_expo w = 255 \<and> f32_frac w \<noteq> 0)"

definition f32_isinf :: "float32 \<Rightarrow> bool" where
  "f32_isinf w = (f32_expo w = 255 \<and> f32_frac w = 0)"

text \<open>\<^verbatim>\<open>std::fabs\<close> clears the sign bit; unary minus flips it.\<close>

definition f32_fabs :: "float32 \<Rightarrow> float32" where
  "f32_fabs w = take_bit 31 w"

definition f32_neg :: "float32 \<Rightarrow> float32" where
  "f32_neg w = w XOR 0x80000000"

text \<open>The comparisons of the codec: \<^verbatim>\<open>v == 0.0f\<close> and \<^verbatim>\<open>v > 0.f\<close>.\<close>

definition f32_eq_zero :: "float32 \<Rightarrow> bool" where
  "f32_eq_zero w = (take_bit 31 w = 0)"

definition f32_gt_zero :: "float32 \<Rightarrow> bool" where
  "f32_gt_zero w = (\<not> f32_isnan w \<and> \<not> f32_signbit w \<and> \<not> f32_eq_zero w)"

definition f32_quiet_NaN :: float32 where
  "f32_quiet_NaN = 0x7FC00000"

definition f32_infinity :: float32 where
  "f32_infinity = 0x7F800000"

text \<open>The magnitude a finite float denotes.\<close>

definition f32_mag :: "float32 \<Rightarrow> rat" where
  "f32_mag w =
     (if f32_expo w = 0 then of_int (f32_frac w) / 2 ^ 149
      else of_int (2 ^ 23 + f32_frac w) * 2 powi (f32_expo w - 150))"

text \<open>
  \<^verbatim>\<open>std::frexp\<close> on a finite float: the mantissa in \<open>[1/2, 1)\<close> and the exponent with
  \<open>|v| = mant * 2 ^ exp\<close>; a subnormal is normalised by the length of its fraction;
  zero gives \<open>(0, 0)\<close>. The codec calls it on \<^verbatim>\<open>fabs(value)\<close> only.
\<close>

definition f32_frexp :: "float32 \<Rightarrow> rat \<times> int" where
  "f32_frexp w =
     (if f32_expo w = 0 then
        (if f32_frac w = 0 then (0, 0)
         else (of_int (f32_frac w) / 2 ^ floorlog 2 (nat (f32_frac w)),
               int (floorlog 2 (nat (f32_frac w))) - 149))
      else (of_int (2 ^ 23 + f32_frac w) / 2 ^ 24, f32_expo w - 126))"

text \<open>\<^verbatim>\<open>std::round\<close>: to the nearest integer, halfway cases away from zero.\<close>

definition c_round :: "rat \<Rightarrow> int" where
  "c_round q = (if 0 \<le> q then \<lfloor>q + 1 / 2\<rfloor> else - \<lfloor>- q + 1 / 2\<rfloor>)"

subsection \<open>Correct rounding\<close>

text \<open>\<open>ilog2 q\<close> is \<open>\<lfloor>log\<^sub>2 q\<rfloor>\<close> for a positive rational.\<close>

definition ilog2 :: "rat \<Rightarrow> int" where
  "ilog2 q =
     (if 1 \<le> q then int (floorlog 2 (nat \<lfloor>q\<rfloor>)) - 1
      else - int (floorlog 2 (nat (\<lceil>1 / q\<rceil> - 1))))"

definition round_half_even :: "rat \<Rightarrow> int" where
  "round_half_even q =
     (let f = \<lfloor>q\<rfloor>; r = q - of_int f
      in if r < 1 / 2 then f
         else if 1 / 2 < r then f + 1
         else if even f then f else f + 1)"

text \<open>
  A binary format with \<open>p\<close> significant bits and least normal exponent \<open>emin\<close>: the
  exponent of the unit in the last place at a positive magnitude \<open>q\<close>, and the number
  of units \<open>q\<close> rounds to.
\<close>

definition fp_ulp_exp :: "nat \<Rightarrow> int \<Rightarrow> rat \<Rightarrow> int" where
  "fp_ulp_exp p emin q = max (ilog2 q) emin - (int p - 1)"

definition fp_units :: "nat \<Rightarrow> int \<Rightarrow> rat \<Rightarrow> int" where
  "fp_units p emin q = round_half_even (q / 2 powi fp_ulp_exp p emin q)"

text \<open>
  The binary32 encoding of the magnitude \<open>q \<ge> 0\<close> with the given sign, correctly
  rounded; a magnitude that rounds beyond the largest finite float gives infinity.
  With \<open>n\<close> units of \<open>2 ^ u\<close> the bits are \<open>(u + 149) * 2 ^ 23 + n\<close>: for a
  subnormal \<open>u = - 149\<close> and the bits are \<open>n\<close>; for a normal \<open>n\<close> carries the
  implicit leading one, which is why the biased exponent \<open>u + 150\<close> appears as \<open>u + 149\<close>.
\<close>

definition f32_encode :: "bool \<Rightarrow> rat \<Rightarrow> float32" where
  "f32_encode neg q =
     (if neg then 0x80000000 else 0) OR
     (if q = 0 then 0
      else word_of_int
             (min 0x7F800000
                ((fp_ulp_exp 24 (- 126) q + 149) * 2 ^ 23 + fp_units 24 (- 126) q)))"

text \<open>\<^verbatim>\<open>std::ldexp(m, e)\<close> for a non-negative float \<open>m\<close>: \<open>m * 2 ^ e\<close>, correctly rounded.\<close>

definition f32_ldexp :: "rat \<Rightarrow> int \<Rightarrow> float32" where
  "f32_ldexp m e = f32_encode False (m * 2 powi e)"

section \<open>The 8-bit codec\<close>

record P3109Layout =
  exponent_bits :: nat
  mantissa_bits :: nat
  exponent_bias :: int

text \<open>The default member initialisers of \<^verbatim>\<open>struct P3109Layout\<close>.\<close>

definition default_layout :: P3109Layout where
  "default_layout = \<lparr>exponent_bits = 3, mantissa_bits = 4, exponent_bias = 3\<rparr>"

text \<open>
  \<^verbatim>\<open>p3109_quantize(value, layout)\<close>. \<open>neg\<close> stands for \<^verbatim>\<open>sign < 0\<close>, which holds
  exactly when \<^verbatim>\<open>std::signbit(value)\<close> does. The saturation expression
  \<^verbatim>\<open>(sign < 0 ? 0x80 : 0x00) | ((max_exp + 1) << mantissa_bits) - 1\<close> is an \<^verbatim>\<open>int\<close>
  (the subtraction binds tighter than the bitwise or), converted to \<^verbatim>\<open>uint8_t\<close> on
  return. \<^verbatim>\<open>mant * 2.0f - 1.0f\<close> and the product with \<^verbatim>\<open>mantissa_mask + 1\<close> are exact in
  binary32 (a scaling by a power of two, and a difference of two floats in \<open>[1, 2]\<close>),
  so they are computed on the rationals.
\<close>

definition p3109_quantize_with :: "P3109Layout \<Rightarrow> float32 \<Rightarrow> uint8" where
  "p3109_quantize_with layout v =
     (if f32_isnan v then 0xFF
      else if f32_isinf v then (if f32_gt_zero v then 0x7F else 0xFE)
      else
        let neg = f32_signbit v;
            abs_v = f32_fabs v
        in if f32_eq_zero abs_v then (if f32_signbit v then 0x80 else 0x00)
           else
             let (mant, exp) = f32_frexp abs_v;
                 bias = exponent_bias layout;
                 exp_val = exp + bias - 1;
                 max_exp = push_bit (exponent_bits layout) 1 - 2;
                 min_exp = 1
             in if exp_val > max_exp then
                  word_of_int ((if neg then 0x80 else 0x00) OR
                               (push_bit (mantissa_bits layout) (max_exp + 1) - 1))
                else if exp_val < min_exp then (if f32_signbit v then 0x80 else 0x00)
                else
                  let mantissa_mask = push_bit (mantissa_bits layout) 1 - 1;
                      scaled = mant * 2 - 1;
                      mantissa = c_round (scaled * of_int (mantissa_mask + 1));
                      carry = (mantissa > mantissa_mask);
                      mantissa = (if carry then 0 else mantissa);
                      exp_val = (if carry then exp_val + 1 else exp_val)
                  in if carry \<and> exp_val > max_exp then
                       word_of_int ((if neg then 0x80 else 0x00) OR
                                    (push_bit (mantissa_bits layout) (max_exp + 1) - 1))
                     else
                       let sign_bit = (if neg then 0x80 else 0x00) :: uint8;
                           exponent_field =
                             (word_of_int (push_bit (mantissa_bits layout) exp_val) :: uint8)
                       in word_of_int (uint sign_bit OR uint exponent_field OR mantissa))"

text \<open>
  \<^verbatim>\<open>p3109_dequantize(code, layout)\<close>. \<^verbatim>\<open>1.0f + mantissa / (mantissa_mask + 1)\<close> is exact
  in binary32 for every mantissa field of at most 23 bits, so \<open>mant\<close> is its rational value.
\<close>

definition p3109_dequantize_with :: "P3109Layout \<Rightarrow> uint8 \<Rightarrow> float32" where
  "p3109_dequantize_with layout code =
     (if code = 0xFF then f32_quiet_NaN
      else if code = 0x7F then f32_infinity
      else if code = 0xFE then f32_neg f32_infinity
      else
        let negative = (code AND 0x80 \<noteq> 0);
            mantissa_mask = push_bit (mantissa_bits layout) 1 - 1;
            exponent_mask = push_bit (exponent_bits layout) 1 - 1;
            exponent = drop_bit (mantissa_bits layout) (uint code) AND exponent_mask;
            mantissa = uint code AND mantissa_mask
        in if exponent = 0 then (if negative then f32_neg 0 else 0)
           else
             let mant = 1 + of_int mantissa / of_int (mantissa_mask + 1);
                 exp = exponent - exponent_bias layout;
                 val = f32_ldexp mant exp
             in if negative then f32_neg val else val)"

text \<open>Every call site of the repository leaves the layout at its default.\<close>

definition p3109_quantize :: "float32 \<Rightarrow> uint8" where
  "p3109_quantize v = p3109_quantize_with default_layout v"

definition p3109_dequantize :: "uint8 \<Rightarrow> float32" where
  "p3109_dequantize code = p3109_dequantize_with default_layout code"

text \<open>
  The fields \<^verbatim>\<open>p3109_dequantize\<close> reads from a code under the default layout:
  \<^verbatim>\<open>(code >> 4) & 7\<close> and \<^verbatim>\<open>code & 15\<close>. The three reserved codes are the ones
  both functions treat first (NaN, plus and minus infinity).
\<close>

definition code_exponent :: "uint8 \<Rightarrow> int" where
  "code_exponent code = drop_bit 4 (uint code) AND 7"

definition code_mantissa :: "uint8 \<Rightarrow> int" where
  "code_mantissa code = uint code AND 15"

definition p3109_reserved :: "uint8 \<Rightarrow> bool" where
  "p3109_reserved code = (code = 0xFF \<or> code = 0x7F \<or> code = 0xFE)"

text \<open>
  The finite codes quantization produces: the two signed zeros (exponent and mantissa
  fields zero) and the codes whose exponent field lies between \<^verbatim>\<open>min_exp = 1\<close> and
  \<^verbatim>\<open>max_exp = 6\<close>.
\<close>

definition p3109_canonical :: "uint8 \<Rightarrow> bool" where
  "p3109_canonical code =
     ((code_exponent code = 0 \<and> code_mantissa code = 0) \<or>
      (1 \<le> code_exponent code \<and> code_exponent code \<le> 6))"




definition f32_finite :: "float32 \<Rightarrow> bool" where
  "f32_finite v = (\<not> f32_isnan v \<and> \<not> f32_isinf v)"

section \<open>The wrapper type\<close>

text \<open>
  \<^verbatim>\<open>class P3109Number\<close> holds one code (\<^verbatim>\<open>value_\<close>, read by \<^verbatim>\<open>raw()\<close>). Its static member
  \<^verbatim>\<open>accumulate_in_fp32_\<close> is process-wide state that the compound assignments read; the
  model passes it as the argument \<open>acc\<close>. The \<^verbatim>\<open>float\<close> operation each operator applies
  to the two dequantized operands is the hardware's; the model takes it as the argument
  \<open>fop\<close>, an arbitrary function of the two bit patterns, so that nothing proved below
  depends on how the machine adds, subtracts, multiplies or divides.
\<close>

datatype P3109Number = P3109Number (raw: uint8)


definition to_float :: "P3109Number \<Rightarrow> float32" where
  "to_float x = p3109_dequantize (raw x)"

definition plus_assign ::
  "(float32 \<Rightarrow> float32 \<Rightarrow> float32) \<Rightarrow> bool \<Rightarrow> P3109Number \<Rightarrow> P3109Number \<Rightarrow> P3109Number" where
  "plus_assign fadd acc this other =
     (let lhs = p3109_dequantize (raw this);
          rhs = p3109_dequantize (raw other);
          res = (if acc then fadd lhs rhs else p3109_dequantize (p3109_quantize (fadd lhs rhs)))
      in P3109Number (p3109_quantize res))"

definition minus_assign ::
  "(float32 \<Rightarrow> float32 \<Rightarrow> float32) \<Rightarrow> bool \<Rightarrow> P3109Number \<Rightarrow> P3109Number \<Rightarrow> P3109Number" where
  "minus_assign fsub acc this other =
     (let lhs = p3109_dequantize (raw this);
          rhs = p3109_dequantize (raw other);
          res = (if acc then fsub lhs rhs else p3109_dequantize (p3109_quantize (fsub lhs rhs)))
      in P3109Number (p3109_quantize res))"

definition times_assign ::
  "(float32 \<Rightarrow> float32 \<Rightarrow> float32) \<Rightarrow> bool \<Rightarrow> P3109Number \<Rightarrow> P3109Number \<Rightarrow> P3109Number" where
  "times_assign fmul acc this other =
     (let lhs = p3109_dequantize (raw this);
          rhs = p3109_dequantize (raw other);
          res = (if acc then fmul lhs rhs else p3109_dequantize (p3109_quantize (fmul lhs rhs)))
      in P3109Number (p3109_quantize res))"

definition divide_assign ::
  "(float32 \<Rightarrow> float32 \<Rightarrow> float32) \<Rightarrow> bool \<Rightarrow> P3109Number \<Rightarrow> P3109Number \<Rightarrow> P3109Number" where
  "divide_assign fdiv acc this other =
     (let lhs = p3109_dequantize (raw this);
          rhs = p3109_dequantize (raw other);
          res = (if acc then fdiv lhs rhs else p3109_dequantize (p3109_quantize (fdiv lhs rhs)))
      in P3109Number (p3109_quantize res))"

text \<open>
  The free binary operators copy the left operand, apply the compound assignment and
  return the copy.
\<close>

definition op_plus ::
  "(float32 \<Rightarrow> float32 \<Rightarrow> float32) \<Rightarrow> bool \<Rightarrow> P3109Number \<Rightarrow> P3109Number \<Rightarrow> P3109Number" where
  "op_plus fadd acc lhs rhs = plus_assign fadd acc lhs rhs"

definition op_minus ::
  "(float32 \<Rightarrow> float32 \<Rightarrow> float32) \<Rightarrow> bool \<Rightarrow> P3109Number \<Rightarrow> P3109Number \<Rightarrow> P3109Number" where
  "op_minus fsub acc lhs rhs = minus_assign fsub acc lhs rhs"

definition op_times ::
  "(float32 \<Rightarrow> float32 \<Rightarrow> float32) \<Rightarrow> bool \<Rightarrow> P3109Number \<Rightarrow> P3109Number \<Rightarrow> P3109Number" where
  "op_times fmul acc lhs rhs = times_assign fmul acc lhs rhs"

definition op_divide ::
  "(float32 \<Rightarrow> float32 \<Rightarrow> float32) \<Rightarrow> bool \<Rightarrow> P3109Number \<Rightarrow> P3109Number \<Rightarrow> P3109Number" where
  "op_divide fdiv acc lhs rhs = divide_assign fdiv acc lhs rhs"


section \<open>The precision registry\<close>

datatype Precision = FP64 | FP32 | TF32 | BF16 | P3109_8

text \<open>A thrown \<^verbatim>\<open>std::runtime_error\<close>, with its message.\<close>

datatype error = RuntimeError string

text \<open>
  \<^verbatim>\<open>std::tolower\<close> on an \<^verbatim>\<open>unsigned char\<close>, in the "C" locale the program runs in:
  the letters \<open>A\<close> to \<open>Z\<close> (65 to 90) move to \<open>a\<close> to \<open>z\<close>, every other byte stays.
\<close>

definition tolower :: "char \<Rightarrow> char" where
  "tolower c = (if 65 \<le> (of_char c :: nat) \<and> (of_char c :: nat) \<le> 90
                then char_of (of_char c + 32 :: nat) else c)"

definition to_lower :: "string \<Rightarrow> string" where
  "to_lower name = map tolower name"

text \<open>The static table of \<^verbatim>\<open>precision_from_string\<close>; its keys are distinct.\<close>

definition precision_map :: "(string \<times> Precision) list" where
  "precision_map =
     [(''fp64'', FP64), (''float64'', FP64),
      (''fp32'', FP32), (''float32'', FP32),
      (''tf32'', TF32), (''tensorfloat32'', TF32),
      (''bf16'', BF16), (''bfloat16'', BF16),
      (''p3109'', P3109_8), (''p3109_8'', P3109_8)]"

definition precision_from_string :: "string \<Rightarrow> error + Precision" where
  "precision_from_string name =
     (let lower = to_lower name
      in case map_of precision_map lower of
           None \<Rightarrow> Inl (RuntimeError (''Unknown precision string: '' @ name))
         | Some p \<Rightarrow> Inr p)"

text \<open>
  The caller \<^verbatim>\<open>parse_precisions\<close> of \<^verbatim>\<open>main.cpp\<close>, on the strings of the configuration's
  array: it appends the precision of each entry in turn and has no handler, so the first
  exception leaves it.
\<close>

fun parse_precisions :: "string list \<Rightarrow> error + Precision list" where
  "parse_precisions [] = Inr []"
| "parse_precisions (entry # rest) =
     (case precision_from_string entry of
        Inl e \<Rightarrow> Inl e
      | Inr p \<Rightarrow> (case parse_precisions rest of Inl e \<Rightarrow> Inl e | Inr ps \<Rightarrow> Inr (p # ps)))"

section \<open>The generic kernels\<close>

text \<open>
  Each kernel is a template over a numeric type \<^verbatim>\<open>T\<close>. The model is polymorphic in
  \<open>'a\<close> and takes the operators of \<^verbatim>\<open>T\<close> the kernel uses as a record: \<^verbatim>\<open>T{}\<close> and the four
  binary operators. The same record type describes the \<^verbatim>\<open>float\<close> arithmetic of the
  wide-accumulation branches. \<^verbatim>\<open>std::size_t\<close> counters are \<open>nat\<close>: every counter stays
  below a bound that is itself a \<^verbatim>\<open>std::size_t\<close>, so none wraps.
\<close>

record 'a arith =
  ar_zero :: 'a
  ar_add :: "'a \<Rightarrow> 'a \<Rightarrow> 'a"
  ar_sub :: "'a \<Rightarrow> 'a \<Rightarrow> 'a"
  ar_mul :: "'a \<Rightarrow> 'a \<Rightarrow> 'a"
  ar_div :: "'a \<Rightarrow> 'a \<Rightarrow> 'a"

text \<open>
  The \<^verbatim>\<open>double\<close> operations of the stopping criteria: \<^verbatim>\<open>0.0\<close>, \<^verbatim>\<open>+\<close>, \<^verbatim>\<open>*\<close>,
  \<^verbatim>\<open>std::sqrt\<close>, \<^verbatim>\<open>std::fabs\<close>, \<^verbatim>\<open><\<close> and \<^verbatim>\<open>==\<close>. The iterative kernels are
  modelled over an arbitrary type \<open>'d\<close> with these operations.
\<close>

record 'd double_ops =
  d_zero :: 'd
  d_add :: "'d \<Rightarrow> 'd \<Rightarrow> 'd"
  d_mul :: "'d \<Rightarrow> 'd \<Rightarrow> 'd"
  d_sqrt :: "'d \<Rightarrow> 'd"
  d_fabs :: "'d \<Rightarrow> 'd"
  d_less :: "'d \<Rightarrow> 'd \<Rightarrow> bool"
  d_eq :: "'d \<Rightarrow> 'd \<Rightarrow> bool"

subsection \<open>Newton-Raphson\<close>

record 'd NewtonOptions =
  max_iters :: nat
  tol :: 'd

record 'a NewtonResult =
  root :: 'a
  iterations :: nat
  converged :: bool

text \<open>The \<^verbatim>\<open>for\<close> loop of \<^verbatim>\<open>newton_raphson\<close>, from the iteration \<open>iter\<close> with the iterate \<open>x\<close>.\<close>

function newton_loop ::
  "'a arith \<Rightarrow> ('a \<Rightarrow> 'd) \<Rightarrow> 'd double_ops \<Rightarrow> ('a \<Rightarrow> 'a) \<Rightarrow> ('a \<Rightarrow> 'a) \<Rightarrow>
   'd NewtonOptions \<Rightarrow> nat \<Rightarrow> 'a \<Rightarrow> 'a NewtonResult" where
  "newton_loop T to_double D f df opts iter x =
     (if iter < NewtonOptions.max_iters opts then
        let fx = f x;
            dfx = df x;
            abs_fx = d_fabs D (to_double fx)
        in if d_less D abs_fx (NewtonOptions.tol opts) then
             \<lparr>root = x, iterations = iter, converged = True\<rparr>
           else if d_eq D (to_double dfx) (d_zero D) then
             \<lparr>root = x, iterations = iter, converged = False\<rparr>
           else newton_loop T to_double D f df opts (iter + 1) (ar_sub T x (ar_div T fx dfx))
      else \<lparr>root = x, iterations = NewtonOptions.max_iters opts, converged = False\<rparr>)"
  by pat_completeness auto
termination
  by (relation "measure (\<lambda>(T, to_double, D, f, df, opts, iter, x). NewtonOptions.max_iters opts - iter)") auto

declare newton_loop.simps [simp del]

definition newton_raphson ::
  "'a arith \<Rightarrow> ('a \<Rightarrow> 'd) \<Rightarrow> 'd double_ops \<Rightarrow> 'a \<Rightarrow> ('a \<Rightarrow> 'a) \<Rightarrow> ('a \<Rightarrow> 'a) \<Rightarrow>
   'd NewtonOptions \<Rightarrow> 'a NewtonResult" where
  "newton_raphson T to_double D initial f df opts = newton_loop T to_double D f df opts 0 initial"

text \<open>One update \<^verbatim>\<open>x = x - fx / dfx\<close>, and the two tests of the loop body at an iterate.\<close>

definition newton_step :: "'a arith \<Rightarrow> ('a \<Rightarrow> 'a) \<Rightarrow> ('a \<Rightarrow> 'a) \<Rightarrow> 'a \<Rightarrow> 'a" where
  "newton_step T f df x = ar_sub T x (ar_div T (f x) (df x))"

definition newton_criterion ::
  "('a \<Rightarrow> 'd) \<Rightarrow> 'd double_ops \<Rightarrow> ('a \<Rightarrow> 'a) \<Rightarrow> 'd NewtonOptions \<Rightarrow> 'a \<Rightarrow> bool" where
  "newton_criterion to_double D f opts x =
     d_less D (d_fabs D (to_double (f x))) (NewtonOptions.tol opts)"

definition newton_derivative_zero ::
  "('a \<Rightarrow> 'd) \<Rightarrow> 'd double_ops \<Rightarrow> ('a \<Rightarrow> 'a) \<Rightarrow> 'a \<Rightarrow> bool" where
  "newton_derivative_zero to_double D df x = d_eq D (to_double (df x)) (d_zero D)"

subsection \<open>Gradient descent on a quadratic\<close>

record 'd GradientDescentOptions =
  step_size :: 'd
  max_iters :: nat
  tol :: 'd

record 'a GradientDescentResult =
  gd_x :: "'a list"
  iterations :: nat
  converged :: bool

text \<open>The loop over \<open>j\<close>: \<^verbatim>\<open>acc = acc + Q[i * dim + j] * x[j]\<close>.\<close>

function gd_row :: "'a arith \<Rightarrow> 'a list \<Rightarrow> 'a list \<Rightarrow> nat \<Rightarrow> nat \<Rightarrow> nat \<Rightarrow> 'a \<Rightarrow> 'a" where
  "gd_row T Q xs ndim i j acc =
     (if j < ndim then
        gd_row T Q xs ndim i (j + 1) (ar_add T acc (ar_mul T (Q ! (i * ndim + j)) (xs ! j)))
      else acc)"
  by pat_completeness auto
termination
  by (relation "measure (\<lambda>(T, Q, xs, ndim, i, j, acc). ndim - j)") auto

declare gd_row.simps [simp del]

text \<open>The loop over \<open>i\<close>: \<^verbatim>\<open>gradient[i] = acc + b[i]\<close>.\<close>

function gd_gradient ::
  "'a arith \<Rightarrow> 'a list \<Rightarrow> 'a list \<Rightarrow> 'a list \<Rightarrow> nat \<Rightarrow> nat \<Rightarrow> 'a list \<Rightarrow> 'a list" where
  "gd_gradient T Q b xs ndim i gradient =
     (if i < ndim then
        gd_gradient T Q b xs ndim (i + 1)
          (gradient[i := ar_add T (gd_row T Q xs ndim i 0 (ar_zero T)) (b ! i)])
      else gradient)"
  by pat_completeness auto
termination
  by (relation "measure (\<lambda>(T, Q, b, xs, ndim, i, gradient). ndim - i)") auto

declare gd_gradient.simps [simp del]

text \<open>The range-based loop \<^verbatim>\<open>grad_norm += gd * gd\<close>.\<close>

fun gd_sum_squares :: "('a \<Rightarrow> 'd) \<Rightarrow> 'd double_ops \<Rightarrow> 'd \<Rightarrow> 'a list \<Rightarrow> 'd" where
  "gd_sum_squares to_double D grad_norm [] = grad_norm"
| "gd_sum_squares to_double D grad_norm (g # gs) =
     gd_sum_squares to_double D
       (d_add D grad_norm (d_mul D (to_double g) (to_double g))) gs"

text \<open>The update loop \<^verbatim>\<open>x[i] = x[i] - T(opts.step_size) * gradient[i]\<close>.\<close>

function gd_update ::
  "'a arith \<Rightarrow> 'a \<Rightarrow> 'a list \<Rightarrow> nat \<Rightarrow> nat \<Rightarrow> 'a list \<Rightarrow> 'a list" where
  "gd_update T step gradient ndim i xs =
     (if i < ndim then
        gd_update T step gradient ndim (i + 1)
          (xs[i := ar_sub T (xs ! i) (ar_mul T step (gradient ! i))])
      else xs)"
  by pat_completeness auto
termination
  by (relation "measure (\<lambda>(T, step, gradient, ndim, i, xs). ndim - i)") auto

declare gd_update.simps [simp del]

text \<open>
  The vectors are read with the unchecked \<^verbatim>\<open>operator[]\<close>. Every pass of the outer loop reads
  \<^verbatim>\<open>Q[i * dim + j]\<close>, \<^verbatim>\<open>x[j]\<close> and \<^verbatim>\<open>b[i]\<close> for all \<open>i, j < dim\<close>; when one of these is out
  of range the behaviour of the source is undefined, which the model returns as \<open>None\<close>.
  \<^verbatim>\<open>gradient\<close> is allocated once, before the loop, with \<open>dim\<close> elements. \<open>ndim\<close>
  stands for the parameter \<^verbatim>\<open>dim\<close> and the field \<open>gd_x\<close> for the member \<^verbatim>\<open>x\<close> of the result.
\<close>

definition gd_in_range :: "'a list \<Rightarrow> 'a list \<Rightarrow> 'a list \<Rightarrow> nat \<Rightarrow> bool" where
  "gd_in_range Q b xs ndim =
     (ndim = 0 \<or> (ndim * ndim \<le> length Q \<and> ndim \<le> length b \<and> ndim \<le> length xs))"

function gd_loop ::
  "'a arith \<Rightarrow> ('a \<Rightarrow> 'd) \<Rightarrow> ('d \<Rightarrow> 'a) \<Rightarrow> 'd double_ops \<Rightarrow> 'a list \<Rightarrow> 'a list \<Rightarrow> nat \<Rightarrow>
   'd GradientDescentOptions \<Rightarrow> nat \<Rightarrow> 'a list \<Rightarrow> 'a list \<Rightarrow> 'a GradientDescentResult option" where
  "gd_loop T to_double of_double D Q b ndim opts iter xs gradient =
     (if iter < GradientDescentOptions.max_iters opts then
        if \<not> gd_in_range Q b xs ndim then None
        else
          let gradient = gd_gradient T Q b xs ndim 0 gradient;
              grad_norm = gd_sum_squares to_double D (d_zero D) gradient;
              grad_norm = d_sqrt D grad_norm
          in if d_less D grad_norm (GradientDescentOptions.tol opts) then
               Some \<lparr>gd_x = xs, iterations = iter, converged = True\<rparr>
             else
               gd_loop T to_double of_double D Q b ndim opts (iter + 1)
                 (gd_update T (of_double (step_size opts)) gradient ndim 0 xs) gradient
      else Some \<lparr>gd_x = xs, iterations = GradientDescentOptions.max_iters opts, converged = False\<rparr>)"
  by pat_completeness auto
termination
  by (relation "measure (\<lambda>(T, to_double, of_double, D, Q, b, ndim, opts, iter, xs, gradient).
        GradientDescentOptions.max_iters opts - iter)") auto

declare gd_loop.simps [simp del]

definition gradient_descent_quadratic ::
  "'a arith \<Rightarrow> ('a \<Rightarrow> 'd) \<Rightarrow> ('d \<Rightarrow> 'a) \<Rightarrow> 'd double_ops \<Rightarrow> 'a list \<Rightarrow> 'a list \<Rightarrow> 'a list \<Rightarrow>
   nat \<Rightarrow> 'd GradientDescentOptions \<Rightarrow> 'a GradientDescentResult option" where
  "gradient_descent_quadratic T to_double of_double D Q b initial ndim opts =
     gd_loop T to_double of_double D Q b ndim opts 0 initial (replicate ndim (ar_zero T))"

text \<open>
  One pass of the loop body on the state \<open>(x, gradient)\<close>: the stopping test on the
  freshly computed gradient, and the state after the update.
\<close>

definition gd_criterion ::
  "('a \<Rightarrow> 'd) \<Rightarrow> 'd double_ops \<Rightarrow> 'd GradientDescentOptions \<Rightarrow> 'a list \<Rightarrow> bool" where
  "gd_criterion to_double D opts gradient =
     d_less D (d_sqrt D (gd_sum_squares to_double D (d_zero D) gradient))
       (GradientDescentOptions.tol opts)"

definition gd_stop ::
  "'a arith \<Rightarrow> ('a \<Rightarrow> 'd) \<Rightarrow> 'd double_ops \<Rightarrow> 'a list \<Rightarrow> 'a list \<Rightarrow> nat \<Rightarrow>
   'd GradientDescentOptions \<Rightarrow> 'a list \<times> 'a list \<Rightarrow> bool" where
  "gd_stop T to_double D Q b ndim opts st =
     gd_criterion to_double D opts (gd_gradient T Q b (fst st) ndim 0 (snd st))"

definition gd_step ::
  "'a arith \<Rightarrow> ('d \<Rightarrow> 'a) \<Rightarrow> 'a list \<Rightarrow> 'a list \<Rightarrow> nat \<Rightarrow>
   'd GradientDescentOptions \<Rightarrow> 'a list \<times> 'a list \<Rightarrow> 'a list \<times> 'a list" where
  "gd_step T of_double Q b ndim opts st =
     (let gradient = gd_gradient T Q b (fst st) ndim 0 (snd st)
      in (gd_update T (of_double (step_size opts)) gradient ndim 0 (fst st), gradient))"

subsection \<open>FIR filter\<close>

record FIROptions =
  use_kahan :: bool
  accumulate_in_fp32 :: bool

text \<open>The default member initialisers of \<^verbatim>\<open>struct FIROptions\<close>.\<close>

definition default_FIROptions :: FIROptions where
  "default_FIROptions = \<lparr>use_kahan = False, accumulate_in_fp32 = False\<rparr>"

text \<open>
  The loop over the taps \<open>k\<close> in the branch that accumulates in \<^verbatim>\<open>float\<close>; the state is
  \<^verbatim>\<open>(sum, compensation)\<close> (\<open>acc_sum\<close> stands for \<^verbatim>\<open>sum\<close>). \<open>F\<close> is the \<^verbatim>\<open>float\<close>
  arithmetic and \<open>to_f32\<close> the conversion \<^verbatim>\<open>static_cast<float>\<close> from \<^verbatim>\<open>T\<close>. The reads
  \<^verbatim>\<open>h[k]\<close> and \<^verbatim>\<open>x[n - k]\<close> are in range: \<open>k < M\<close> and \<open>n - k \<le> n < N\<close>.
\<close>

function fir_taps_fp32 ::
  "'f arith \<Rightarrow> ('a \<Rightarrow> 'f) \<Rightarrow> FIROptions \<Rightarrow> 'a list \<Rightarrow> 'a list \<Rightarrow> nat \<Rightarrow> nat \<Rightarrow> 'f \<times> 'f \<Rightarrow> 'f \<times> 'f" where
  "fir_taps_fp32 F to_f32 opts h xs n k (acc_sum, compensation) =
     (if k < length h then
        if n \<ge> k then
          let hk = to_f32 (h ! k);
              xnk = to_f32 (xs ! (n - k));
              prod = ar_mul F hk xnk
          in if use_kahan opts then
               let y_val = ar_sub F prod compensation;
                   t = ar_add F acc_sum y_val;
                   compensation = ar_sub F (ar_sub F t acc_sum) y_val;
                   acc_sum = t
               in fir_taps_fp32 F to_f32 opts h xs n (k + 1) (acc_sum, compensation)
             else fir_taps_fp32 F to_f32 opts h xs n (k + 1) (ar_add F acc_sum prod, compensation)
        else fir_taps_fp32 F to_f32 opts h xs n (k + 1) (acc_sum, compensation)
      else (acc_sum, compensation))"
  by pat_completeness auto
termination
  by (relation "measure (\<lambda>(F, to_f32, opts, h, xs, n, k, st). length h - k)") auto

declare fir_taps_fp32.simps [simp del]

text \<open>The same loop in the branch that accumulates in \<^verbatim>\<open>T\<close>.\<close>

function fir_taps ::
  "'a arith \<Rightarrow> FIROptions \<Rightarrow> 'a list \<Rightarrow> 'a list \<Rightarrow> nat \<Rightarrow> nat \<Rightarrow> 'a \<times> 'a \<Rightarrow> 'a \<times> 'a" where
  "fir_taps T opts h xs n k (acc_sum, compensation) =
     (if k < length h then
        if n \<ge> k then
          let prod = ar_mul T (h ! k) (xs ! (n - k))
          in if use_kahan opts then
               let y_val = ar_sub T prod compensation;
                   t = ar_add T acc_sum y_val;
                   compensation = ar_sub T (ar_sub T t acc_sum) y_val;
                   acc_sum = t
               in fir_taps T opts h xs n (k + 1) (acc_sum, compensation)
             else fir_taps T opts h xs n (k + 1) (ar_add T acc_sum prod, compensation)
        else fir_taps T opts h xs n (k + 1) (acc_sum, compensation)
      else (acc_sum, compensation))"
  by pat_completeness auto
termination
  by (relation "measure (\<lambda>(T, opts, h, xs, n, k, st). length h - k)") auto

declare fir_taps.simps [simp del]

text \<open>The loop over the output samples \<open>n\<close>; \<open>of_f32\<close> is the conversion \<^verbatim>\<open>T(sum)\<close>.\<close>

function fir_samples ::
  "'a arith \<Rightarrow> 'f arith \<Rightarrow> ('a \<Rightarrow> 'f) \<Rightarrow> ('f \<Rightarrow> 'a) \<Rightarrow> FIROptions \<Rightarrow> 'a list \<Rightarrow> 'a list \<Rightarrow>
   nat \<Rightarrow> 'a list \<Rightarrow> 'a list" where
  "fir_samples T F to_f32 of_f32 opts h xs n y =
     (if n < length xs then
        if accumulate_in_fp32 opts then
          fir_samples T F to_f32 of_f32 opts h xs (n + 1)
            (y[n := of_f32 (fst (fir_taps_fp32 F to_f32 opts h xs n 0 (ar_zero F, ar_zero F)))])
        else
          fir_samples T F to_f32 of_f32 opts h xs (n + 1)
            (y[n := fst (fir_taps T opts h xs n 0 (ar_zero T, ar_zero T))])
      else y)"
  by pat_completeness auto
termination
  by (relation "measure (\<lambda>(T, F, to_f32, of_f32, opts, h, xs, n, y). length xs - n)") auto

declare fir_samples.simps [simp del]

definition fir_filter ::
  "'a arith \<Rightarrow> 'f arith \<Rightarrow> ('a \<Rightarrow> 'f) \<Rightarrow> ('f \<Rightarrow> 'a) \<Rightarrow> 'a list \<Rightarrow> 'a list \<Rightarrow> FIROptions \<Rightarrow> 'a list" where
  "fir_filter T F to_f32 of_f32 h xs opts =
     fir_samples T F to_f32 of_f32 opts h xs 0 (replicate (length xs) (ar_zero T))"

subsection \<open>The native types \<^verbatim>\<open>double\<close> and \<^verbatim>\<open>float\<close>\<close>

text \<open>
  A value of an IEEE-754 binary format: a NaN, a signed infinity, or a finite value given
  by its sign and its magnitude (so that both zeros are values). Each operation returns
  the exact result rounded to nearest, ties to even, in the format with \<open>p\<close> significant
  bits and exponents \<open>emin\<close> to \<open>emax\<close>; a result that rounds to \<open>2 ^ (emax + 1)\<close> or
  beyond is an infinity. Payloads of NaNs are not distinguished.
\<close>

datatype ieee = NaN | Infinity bool | Finite bool rat

definition sval :: "bool \<Rightarrow> rat \<Rightarrow> rat" where
  "sval neg q = (if neg then - q else q)"

definition fp_round :: "nat \<Rightarrow> int \<Rightarrow> int \<Rightarrow> bool \<Rightarrow> rat \<Rightarrow> ieee" where
  "fp_round p emin emax neg q =
     (if q = 0 then Finite neg 0
      else
        let r = of_int (fp_units p emin q) * 2 powi fp_ulp_exp p emin q
        in if 2 powi (emax + 1) \<le> r then Infinity neg else Finite neg r)"

fun fp_neg :: "ieee \<Rightarrow> ieee" where
  "fp_neg NaN = NaN"
| "fp_neg (Infinity s) = Infinity (\<not> s)"
| "fp_neg (Finite s a) = Finite (\<not> s) a"

fun fp_add :: "nat \<Rightarrow> int \<Rightarrow> int \<Rightarrow> ieee \<Rightarrow> ieee \<Rightarrow> ieee" where
  "fp_add p emin emax NaN v = NaN"
| "fp_add p emin emax u NaN = NaN"
| "fp_add p emin emax (Infinity s) (Infinity t) = (if s = t then Infinity s else NaN)"
| "fp_add p emin emax (Infinity s) (Finite t b) = Infinity s"
| "fp_add p emin emax (Finite s a) (Infinity t) = Infinity t"
| "fp_add p emin emax (Finite s a) (Finite t b) =
     (let r = sval s a + sval t b
      in if r = 0 then Finite (s \<and> t) 0 else fp_round p emin emax (r < 0) \<bar>r\<bar>)"

definition fp_sub :: "nat \<Rightarrow> int \<Rightarrow> int \<Rightarrow> ieee \<Rightarrow> ieee \<Rightarrow> ieee" where
  "fp_sub p emin emax u v = fp_add p emin emax u (fp_neg v)"

fun fp_mul :: "nat \<Rightarrow> int \<Rightarrow> int \<Rightarrow> ieee \<Rightarrow> ieee \<Rightarrow> ieee" where
  "fp_mul p emin emax NaN v = NaN"
| "fp_mul p emin emax u NaN = NaN"
| "fp_mul p emin emax (Infinity s) (Infinity t) = Infinity (s \<noteq> t)"
| "fp_mul p emin emax (Infinity s) (Finite t b) = (if b = 0 then NaN else Infinity (s \<noteq> t))"
| "fp_mul p emin emax (Finite s a) (Infinity t) = (if a = 0 then NaN else Infinity (s \<noteq> t))"
| "fp_mul p emin emax (Finite s a) (Finite t b) = fp_round p emin emax (s \<noteq> t) (a * b)"

fun fp_div :: "nat \<Rightarrow> int \<Rightarrow> int \<Rightarrow> ieee \<Rightarrow> ieee \<Rightarrow> ieee" where
  "fp_div p emin emax NaN v = NaN"
| "fp_div p emin emax u NaN = NaN"
| "fp_div p emin emax (Infinity s) (Infinity t) = NaN"
| "fp_div p emin emax (Infinity s) (Finite t b) = Infinity (s \<noteq> t)"
| "fp_div p emin emax (Finite s a) (Infinity t) = Finite (s \<noteq> t) 0"
| "fp_div p emin emax (Finite s a) (Finite t b) =
     (if b = 0 then (if a = 0 then NaN else Infinity (s \<noteq> t))
      else fp_round p emin emax (s \<noteq> t) (a / b))"

text \<open>A conversion into the format: \<^verbatim>\<open>static_cast<float>\<close> of a \<^verbatim>\<open>double\<close>.\<close>

fun fp_convert :: "nat \<Rightarrow> int \<Rightarrow> int \<Rightarrow> ieee \<Rightarrow> ieee" where
  "fp_convert p emin emax NaN = NaN"
| "fp_convert p emin emax (Infinity s) = Infinity s"
| "fp_convert p emin emax (Finite s a) = fp_round p emin emax s a"

definition fp_arith :: "nat \<Rightarrow> int \<Rightarrow> int \<Rightarrow> ieee arith" where
  "fp_arith p emin emax =
     \<lparr>ar_zero = Finite False 0,
      ar_add = fp_add p emin emax,
      ar_sub = fp_sub p emin emax,
      ar_mul = fp_mul p emin emax,
      ar_div = fp_div p emin emax\<rparr>"

text \<open>binary64 and binary32; \<^verbatim>\<open>fir_filter<double>\<close> is the kernel at these arguments.\<close>

definition double_arith :: "ieee arith" where
  "double_arith = fp_arith 53 (- 1022) 1023"

definition float_arith :: "ieee arith" where
  "float_arith = fp_arith 24 (- 126) 127"

definition double_to_float :: "ieee \<Rightarrow> ieee" where
  "double_to_float v = fp_convert 24 (- 126) 127 v"

text \<open>Every \<^verbatim>\<open>float\<close> is a \<^verbatim>\<open>double\<close>: the conversion back changes nothing.\<close>

definition float_to_double :: "ieee \<Rightarrow> ieee" where
  "float_to_double v = v"

definition fir_filter_double :: "ieee list \<Rightarrow> ieee list \<Rightarrow> FIROptions \<Rightarrow> ieee list" where
  "fir_filter_double h xs opts =
     fir_filter double_arith float_arith double_to_float float_to_double h xs opts"

text \<open>The \<^verbatim>\<open>double\<close> a decimal literal denotes, for a literal that is a binary fraction.\<close>

definition dbl :: "rat \<Rightarrow> ieee" where
  "dbl q = fp_round 53 (- 1022) 1023 (q < 0) \<bar>q\<bar>"

subsection \<open>An exact instance\<close>

text \<open>
  The kernels at exact rational arithmetic, for both \<^verbatim>\<open>T\<close> and the \<^verbatim>\<open>double\<close> of the
  stopping criteria (with the identity in the place of the square root). The theorems
  about the iterative kernels hold for every instance; this one is used to run them on
  concrete inputs.
\<close>

definition rat_arith :: "rat arith" where
  "rat_arith = \<lparr>ar_zero = 0, ar_add = (+), ar_sub = (-), ar_mul = (*), ar_div = (/)\<rparr>"

definition rat_double_ops :: "rat double_ops" where
  "rat_double_ops =
     \<lparr>d_zero = 0, d_add = (+), d_mul = (*), d_sqrt = id, d_fabs = abs,
      d_less = (<), d_eq = (=)\<rparr>"

section \<open>The codec by fields\<close>

text \<open>
  Two auxiliary functions for the proofs: the byte with a given sign, exponent field and
  mantissa field, and the result of quantization in terms of the sign, biased exponent
  and fraction of the binary32 input (lemma \<open>quantize_fields\<close> shows that
  \<open>p3109_quantize\<close> computes it).
\<close>

definition code_of :: "bool \<Rightarrow> int \<Rightarrow> int \<Rightarrow> uint8" where
  "code_of s e m = word_of_int ((if s then 128 else 0) + 16 * e + m)"

definition quant_fields :: "bool \<Rightarrow> int \<Rightarrow> int \<Rightarrow> uint8" where
  "quant_fields s E F =
     (if E = 255 \<and> F \<noteq> 0 then 0xFF
      else if E = 255 then (if s then 0xFE else 0x7F)
      else if 130 < E then code_of s 6 15
      else if E < 125 then code_of s 0 0
      else if 15 < (F + 2 ^ 18) div 2 ^ 19 then
        (if E = 130 then code_of s 6 15 else code_of s (E - 123) 0)
      else code_of s (E - 124) ((F + 2 ^ 18) div 2 ^ 19))"

section \<open>Lemmas\<close>

subsection \<open>Binary logarithm and the encoder\<close>

lemma floorlog2_eqI:
  assumes "2 ^ K \<le> n" "n < 2 ^ Suc K"
  shows "floorlog 2 n = Suc K"
proof -
  have "floorlog 2 n \<le> Suc K"
    using assms(2) by (intro floorlog_leI) auto
  moreover have "Suc K \<le> floorlog 2 n"
    using assms(1) by (intro floorlog_ge_SucI) auto
  ultimately show ?thesis by simp
qed

lemma floorlog2_int_eqI:
  assumes "2 ^ K \<le> (z::int)" "z < 2 ^ Suc K"
  shows "floorlog 2 (nat z) = Suc K"
proof -
  have z0: "0 \<le> z" using assms(1) zero_le_power[of "2::int" K] by linarith
  have "int (2 ^ K) \<le> int (nat z)" using assms(1) z0 by simp
  then have lo: "2 ^ K \<le> nat z" by (simp only: of_nat_le_iff)
  have "int (nat z) < int (2 ^ Suc K)" using assms(2) z0 by simp
  then have hi: "nat z < 2 ^ Suc K" by (simp only: of_nat_less_iff)
  from lo hi show ?thesis by (rule floorlog2_eqI)
qed

lemma ilog2_eqI_nonneg:
  assumes "0 \<le> k" "2 powi k \<le> q" "q < 2 powi (k + 1)"
  shows "ilog2 q = k"
proof -
  define K where "K = nat k"
  have k: "k = int K" using assms(1) by (simp add: K_def)
  have lo: "(2::rat) ^ K \<le> q" using assms(2) by (simp add: k)
  have hi: "q < (2::rat) ^ Suc K" using assms(3) 
    by (simp add: k power_int_add)
  have q1: "1 \<le> q" using lo one_le_power[of "2::rat" K] by linarith
  have flo: "(2::int) ^ K \<le> \<lfloor>q\<rfloor>"
    using lo by (simp add: le_floor_iff)
  have fhi: "\<lfloor>q\<rfloor> < (2::int) ^ Suc K"
    using hi by (simp add: floor_less_iff)
  from flo fhi have "floorlog 2 (nat \<lfloor>q\<rfloor>) = Suc K"
    by (rule floorlog2_int_eqI)
  then show ?thesis using q1 by (simp add: ilog2_def k)
qed

lemma ilog2_eqI_neg:
  assumes "k < 0" "2 powi k \<le> q" "q < 2 powi (k + 1)"
  shows "ilog2 q = k"
proof -
  define J where "J = nat (- k) - 1"
  have k: "k = - int (Suc J)" using assms(1) by (simp add: J_def)
  have k1: "k + 1 = - int J" using assms(1) by (simp add: J_def)
  have p0: "2 powi k = 1 / (2::rat) ^ Suc J"
    by (simp only: k power_int_minus_divide power_int_of_nat)
  have p1: "2 powi (k + 1) = 1 / (2::rat) ^ J"
    by (simp only: k1 power_int_minus_divide power_int_of_nat)
  have pos: "0 < (2::rat) ^ Suc J" "0 < (2::rat) ^ J" by simp_all
  have lo: "1 / (2::rat) ^ Suc J \<le> q" using assms(2) by (simp only: p0)
  have hi: "q < 1 / (2::rat) ^ J" using assms(3) by (simp only: p1)
  have qpos: "0 < q" using lo pos(1) by (meson divide_pos_pos less_le_trans zero_less_one)
  have q1: "q < 1" 
  proof -
    have "1 / (2::rat) ^ J \<le> 1" by simp
    then show ?thesis using hi by linarith
  qed
  have rhi: "1 / q \<le> (2::rat) ^ Suc J"
    using lo qpos pos(1) by (simp only: field_simps)
  have rlo: "(2::rat) ^ J < 1 / q"
    using hi qpos pos(2) by (simp only: field_simps)
  have chi: "\<lceil>1 / q\<rceil> \<le> (2::int) ^ Suc J"
    using rhi by (simp add: ceiling_le_iff del: power_Suc)
  have clo: "(2::int) ^ J < \<lceil>1 / q\<rceil>"
    using rlo by (simp add: less_ceiling_iff)
  have "floorlog 2 (nat (\<lceil>1 / q\<rceil> - 1)) = Suc J"
    using clo chi by (intro floorlog2_int_eqI) linarith+
  then show ?thesis using q1 by (simp add: ilog2_def k)
qed

lemma ilog2_eqI:
  assumes "2 powi k \<le> q" "q < 2 powi (k + 1)"
  shows "ilog2 q = k"
  using assms ilog2_eqI_nonneg ilog2_eqI_neg by (cases "0 \<le> k") auto

lemma f32_expo_uint: "f32_expo w = uint w div 2 ^ 23 mod 2 ^ 8"
proof -
  have "take_bit 32 (uint w) = uint w"
    using uint_bounded[of w] by (simp add: take_bit_int_eq_self)
  then show ?thesis
    unfolding f32_expo_def unsigned_take_bit_eq unsigned_drop_bit_eq
    by (simp add: take_bit_eq_mod drop_bit_eq_div)
qed

lemma f32_frac_uint: "f32_frac w = uint w mod 2 ^ 23"
  unfolding f32_frac_def unsigned_take_bit_eq
  by (simp add: take_bit_eq_mod)

lemma bit31_int: "0 \<le> (n::int) \<Longrightarrow> n < 2 ^ 32 \<Longrightarrow> bit n 31 \<longleftrightarrow> 2 ^ 31 \<le> n"
proof -
  assume a: "0 \<le> n" "n < 2 ^ 32"
  have "n div 2 ^ 31 = 0 \<or> n div 2 ^ 31 = 1" using a by auto
  moreover have "n div 2 ^ 31 = 1 \<longleftrightarrow> 2 ^ 31 \<le> n" using a by auto
  ultimately show ?thesis by (auto simp: bit_iff_odd)
qed

lemma f32_signbit_uint: "f32_signbit w \<longleftrightarrow> 2 ^ 31 \<le> uint w"
proof -
  have "bit w 31 \<longleftrightarrow> bit (uint w) 31" by (simp add: bit_uint_iff)
  also have "\<dots> \<longleftrightarrow> 2 ^ 31 \<le> uint w"
    using uint_bounded[of w] by (intro bit31_int) simp_all
  finally show ?thesis by (simp add: f32_signbit_def)
qed

lemma f32_fabs_uint: "uint (f32_fabs w) = uint w mod 2 ^ 31"
  unfolding f32_fabs_def unsigned_take_bit_eq
  by (simp add: take_bit_eq_mod)

lemma f32_neg_uint: 
  "uint (f32_neg w) = (if 2 ^ 31 \<le> uint w then uint w - 2 ^ 31 else uint w + 2 ^ 31)"
proof -
  have "uint (f32_neg w) = uint w XOR uint (0x80000000 :: 32 word)"
    unfolding f32_neg_def by (rule unsigned_xor_eq)
  also have "uint (0x80000000 :: 32 word) = push_bit 31 1" by simp
  also have "uint w XOR push_bit 31 1 = flip_bit 31 (uint w)"
    by (simp only: flip_bit_eq_xor)
  also have "\<dots> = (if bit (uint w) 31 then uint w - 2 ^ 31 else uint w + 2 ^ 31)"
    by (simp add: flip_bit_eq_if set_bit_eq unset_bit_eq)
  also have "bit (uint w) 31 \<longleftrightarrow> 2 ^ 31 \<le> uint w"
    using uint_bounded[of w] by (intro bit31_int) simp_all
  finally show ?thesis .
qed

lemma f32_eq_zero_uint: "f32_eq_zero w \<longleftrightarrow> uint w mod 2 ^ 31 = 0"
proof -
  have "take_bit 31 w = 0 \<longleftrightarrow> uint (take_bit 31 w) = 0" by (simp add: uint_0_iff)
  then show ?thesis
    unfolding f32_eq_zero_def unsigned_take_bit_eq by (simp add: take_bit_eq_mod)
qed

lemma sign_plus_uint:
  assumes "0 \<le> B" "B < 2 ^ 31"
  shows "uint ((if s then 0x80000000 else 0) OR (word_of_int B :: 32 word)) = (if s then 2 ^ 31 else 0) + B"
proof -
  have B: "uint (word_of_int B :: 32 word) = B"
    using assms by (simp add: uint_word_of_int)
  have "uint ((0x80000000 :: 32 word) OR word_of_int B) = push_bit 31 1 OR B"
    unfolding unsigned_or_eq B by simp
  also have "\<dots> = concat_bit 31 B 1"
    using assms by (simp add: concat_bit_def take_bit_int_eq_self ac_simps)
  also have "\<dots> = B + 2 ^ 31"
    using assms by (simp add: concat_bit_eq take_bit_int_eq_self)
  finally show ?thesis using B by simp
qed

lemma pack_int: 
  assumes "0 \<le> m" "m < 16" 
  shows "(push_bit 4 (e::int)) OR m = 16 * e + m"
proof -
  have "push_bit 4 e OR m = concat_bit 4 m e"
    using assms by (simp add: concat_bit_def take_bit_int_eq_self ac_simps)
  also have "\<dots> = m + 16 * e"
    using assms by (simp add: concat_bit_eq take_bit_int_eq_self push_bit_eq_mult)
  finally show ?thesis by simp
qed

lemma pack_sign_int: 
  assumes "0 \<le> r" "r < 128" 
  shows "(128::int) OR r = 128 + r"
proof -
  have "(128::int) OR r = push_bit 7 1 OR r" by simp
  also have "\<dots> = concat_bit 7 r 1"
    using assms by (simp add: concat_bit_def take_bit_int_eq_self ac_simps)
  also have "\<dots> = r + 128"
    using assms by (simp add: concat_bit_eq take_bit_int_eq_self)
  finally show ?thesis by simp
qed

lemma bit7_int: "0 \<le> (n::int) \<Longrightarrow> n < 256 \<Longrightarrow> bit n 7 \<longleftrightarrow> 128 \<le> n"
proof -
  assume a: "0 \<le> n" "n < 256"
  have "n div 2 ^ 7 = 0 \<or> n div 2 ^ 7 = 1" using a by auto
  moreover have "n div 2 ^ 7 = 1 \<longleftrightarrow> 128 \<le> n" using a by auto
  ultimately show ?thesis by (auto simp: bit_iff_odd)
qed

lemma code_negative: "(c :: 8 word) AND 0x80 \<noteq> 0 \<longleftrightarrow> 128 \<le> uint c"
proof -
  have "c AND 0x80 \<noteq> 0 \<longleftrightarrow> bit c 7"
    using and_exp_eq_0_iff_not_bit[of c 7] by simp
  also have "\<dots> \<longleftrightarrow> bit (uint c) 7" by (simp add: bit_uint_iff)
  also have "\<dots> \<longleftrightarrow> 128 \<le> uint c"
    using uint_bounded[of c] by (intro bit7_int) simp_all
  finally show ?thesis .
qed

lemma and15: "(x::int) AND 15 = x mod 16"
  using take_bit_eq_mask[of 4 x] by (simp add: take_bit_eq_mod mask_numeral)

lemma and7: "(x::int) AND 7 = x mod 8"
  using take_bit_eq_mask[of 3 x] by (simp add: take_bit_eq_mod mask_numeral)

lemma f32_expo_range: "0 \<le> f32_expo w \<and> f32_expo w < 256"
  by (simp add: f32_expo_uint)

lemma f32_frac_range: "0 \<le> f32_frac w \<and> f32_frac w < 8388608"
  by (simp add: f32_frac_uint)

lemma f32_expo_fabs: "f32_expo (f32_fabs w) = f32_expo w"
  by (simp add: f32_expo_def f32_fabs_def drop_bit_take_bit take_bit_take_bit)

lemma f32_frac_fabs: "f32_frac (f32_fabs w) = f32_frac w"
  by (simp add: f32_frac_def f32_fabs_def take_bit_take_bit)

lemma f32_expo_neg: "f32_expo (f32_neg w) = f32_expo w"
proof -
  have "take_bit 8 (drop_bit 23 (w XOR 0x80000000)) = take_bit 8 (drop_bit 23 w)"
    by (rule bit_word_eqI) (auto simp: bit_simps)
  then show ?thesis by (simp add: f32_expo_def f32_neg_def)
qed

lemma f32_frac_neg: "f32_frac (f32_neg w) = f32_frac w"
proof -
  have "take_bit 23 (w XOR 0x80000000) = take_bit 23 w"
    by (rule bit_word_eqI) (auto simp: bit_simps)
  then show ?thesis by (simp add: f32_frac_def f32_neg_def)
qed

lemma f32_signbit_neg: "f32_signbit (f32_neg w) \<longleftrightarrow> \<not> f32_signbit w"
  by (simp add: f32_signbit_def f32_neg_def bit_simps)

lemma f32_split31:
  "uint (w::float32) mod 2 ^ 31 = 2 ^ 23 * f32_expo w + f32_frac w"
proof -
  have "uint w mod (2 ^ 23 * 2 ^ 8) = 2 ^ 23 * (uint w div 2 ^ 23 mod 2 ^ 8) + uint w mod 2 ^ 23"
    by (rule zmod_zmult2_eq) simp
  then show ?thesis by (simp add: f32_expo_uint f32_frac_uint)
qed

lemma split_zero:
  "0 \<le> (E::int) \<Longrightarrow> 0 \<le> F \<Longrightarrow> (2 ^ 23 * E + F = 0) = (E = 0 \<and> F = 0)"
  by auto

lemma uint8_of_int: "0 \<le> k \<Longrightarrow> k < 256 \<Longrightarrow> uint (word_of_int k :: uint8) = k"
  by (simp add: uint_word_of_int)

lemma f32_eq_zero_fields: "f32_eq_zero w \<longleftrightarrow> f32_expo w = 0 \<and> f32_frac w = 0"
proof -
  have "(2 ^ 23 * f32_expo w + f32_frac w = 0) = (f32_expo w = 0 \<and> f32_frac w = 0)"
    using f32_expo_range[of w] f32_frac_range[of w] by (intro split_zero) simp_all
  then show ?thesis by (simp only: f32_eq_zero_uint f32_split31)
qed

lemma c_round_scaled:
  assumes "0 \<le> F"
  shows "c_round ((of_int (2 ^ 23 + F) / 2 ^ 24 * 2 - 1) * of_int (15 + 1)) = (F + 2 ^ 18) div 2 ^ 19"
proof -
  have e: "(of_int (2 ^ 23 + F) / 2 ^ 24 * 2 - 1) * of_int (15 + 1) + 1 / 2
        = (of_int (F + 2 ^ 18) / of_int (2 ^ 19) :: rat)"
    by (simp add: field_simps)
  have nn: "(0::rat) \<le> (of_int (2 ^ 23 + F) / 2 ^ 24 * 2 - 1) * of_int (15 + 1)"
    using assms by (simp add: field_simps)
  have "\<lfloor>(of_int (2 ^ 23 + F) / 2 ^ 24 * 2 - 1) * of_int (15 + 1) + 1 / 2 :: rat\<rfloor>
        = (F + 2 ^ 18) div 2 ^ 19"
    unfolding e by (rule floor_divide_of_int_eq)
  then show ?thesis using nn unfolding c_round_def by simp
qed

lemma pack_code:
  assumes "0 \<le> e" "e < 8" "0 \<le> m" "m < 16"
  shows "word_of_int (uint (if s then 0x80 else 0x00 :: uint8)
            OR uint (word_of_int (push_bit 4 e) :: uint8) OR m) = code_of s e m"
proof -
  have p: "push_bit 4 e = 16 * e" by (simp add: push_bit_eq_mult)
  have "uint (word_of_int (16 * e) :: uint8) = 16 * e"
    using assms by (intro uint8_of_int) auto
  then have u: "uint (word_of_int (push_bit 4 e) :: uint8) = 16 * e"
    unfolding p .
  have em: "16 * e OR m = 16 * e + m"
    using pack_int[OF assms(3,4), of e] by (simp add: push_bit_eq_mult mult.commute)
  have r: "0 \<le> 16 * e + m" "16 * e + m < 128" using assms by auto
  show ?thesis
  proof (cases s)
    case True
    have "128 OR (16 * e OR m) = 128 + (16 * e + m)"
      unfolding em by (rule pack_sign_int) (use r in auto)
    then show ?thesis using True by (simp add: u code_of_def or.assoc)
  next
    case False
    then show ?thesis by (simp add: u em code_of_def)
  qed
qed

lemma sat_code:
  "word_of_int ((if s then 0x80 else 0x00) OR (push_bit 4 (6 + 1) - 1)) = code_of s 6 15"
  by (cases s) (simp_all add: code_of_def)

lemma floorlog_frac: 
  assumes "0 \<le> F" "F < 8388608"
  shows "floorlog 2 (nat F) \<le> 23"
  using assms by (intro floorlog_leI) auto

lemma quantize_fields:
  "p3109_quantize v = quant_fields (f32_signbit v) (f32_expo v) (f32_frac v)"
proof -
  define s where "s = f32_signbit v"
  define E where "E = f32_expo v"
  define F where "F = f32_frac v"
  have Er: "0 \<le> E" "E < 256" using f32_expo_range[of v] by (simp_all add: E_def)
  have Fr: "0 \<le> F" "F < 8388608" using f32_frac_range[of v] by (simp_all add: F_def)
  note defs = p3109_quantize_def p3109_quantize_with_def default_layout_def
    f32_isnan_def f32_isinf_def f32_gt_zero_def f32_eq_zero_fields f32_expo_fabs f32_frac_fabs
    E_def[symmetric] F_def[symmetric] s_def[symmetric]
  consider (nan) "E = 255" "F \<noteq> 0" | (inf) "E = 255" "F = 0"
    | (zero) "E = 0" "F = 0" | (sub) "E = 0" "F \<noteq> 0"
    | (big) "130 < E" "E < 255" | (small) "0 < E" "E < 125"
    | (mid) "125 \<le> E" "E \<le> 130"
    using Er by linarith
  then have "p3109_quantize v = quant_fields s E F"
  proof cases
    case nan
    then show ?thesis by (simp add: defs quant_fields_def)
  next
    case inf
    then show ?thesis by (simp add: defs quant_fields_def)
  next
    case zero
    then show ?thesis by (simp add: defs quant_fields_def code_of_def)
  next
    case sub
    have "int (floorlog 2 (nat F)) \<le> 23" using floorlog_frac[OF Fr] by simp
    then show ?thesis using sub
      by (simp add: defs quant_fields_def code_of_def f32_frexp_def Let_def)
  next
    case big
    then show ?thesis using sat_code[of s]
      by (simp add: defs quant_fields_def f32_frexp_def Let_def)
  next
    case small
    then show ?thesis
      by (simp add: defs quant_fields_def code_of_def f32_frexp_def Let_def)
  next
    case mid
    define m where "m = (F + 2 ^ 18) div 2 ^ 19"
    have mr: "0 \<le> m" "m \<le> 16" using Fr by (simp_all add: m_def)
    have m': "(F + 262144) div 524288 = m" by (simp add: m_def)
    have cr: "c_round ((of_int (2 ^ 23 + F) / 2 ^ 24 * 2 - 1) * of_int (15 + 1)) = m"
      unfolding m_def by (rule c_round_scaled) (rule Fr)
    show ?thesis
    proof (cases "15 < m")
      case True
      show ?thesis
      proof (cases "E = 130")
        case e: True
        then show ?thesis using True mid sat_code[of s] cr
          by (simp add: defs quant_fields_def f32_frexp_def Let_def m')
      next
        case e: False
        have "word_of_int (uint (if s then 0x80 else 0x00 :: uint8)
            OR uint (word_of_int (push_bit 4 (E - 123)) :: uint8) OR 0) = code_of s (E - 123) 0"
          by (rule pack_code) (use mid e in auto)
        then show ?thesis using True mid e cr
          by (simp add: defs quant_fields_def f32_frexp_def Let_def m')
      qed
    next
      case False
      have "word_of_int (uint (if s then 0x80 else 0x00 :: uint8)
            OR uint (word_of_int (push_bit 4 (E - 124)) :: uint8) OR m) = code_of s (E - 124) m"
        by (rule pack_code) (use mid False mr in auto)
      then show ?thesis using False mid cr
        by (simp add: defs quant_fields_def f32_frexp_def Let_def m')
    qed
  qed
  then show ?thesis by (simp add: s_def E_def F_def)
qed

lemma round_half_even_of_int: "round_half_even (of_int n) = n"
  by (simp add: round_half_even_def)

lemma powi_shift: "(2::rat) powi (u + int k) = 2 ^ k * 2 powi u"
proof -
  have "(2::rat) powi (u + int k) = 2 powi u * 2 powi (int k)"
    by (rule power_int_add) simp
  then show ?thesis by (simp only: power_int_of_nat mult.commute)
qed

lemma f32_encode_normal:
  assumes "2 ^ 23 \<le> n" "n < 2 ^ 24" "- 149 \<le> u" "u \<le> 104"
  shows "f32_encode neg (of_int n * 2 powi u) =
           (if neg then 0x80000000 else 0) OR word_of_int ((u + 149) * 2 ^ 23 + n)"
proof -
  define q :: rat where "q = of_int n * 2 powi u"
  have pu: "(0::rat) < 2 powi u" by simp
  have npos: "(0::rat) < of_int n" using assms(1) by simp
  have qpos: "0 < q" unfolding q_def using npos pu by (rule mult_pos_pos)
  have n1: "(2::rat) ^ 23 \<le> of_int n"
    using assms(1) by (metis of_int_le_iff of_int_numeral of_int_power)
  have n2: "of_int n < (2::rat) ^ 24"
    using assms(2) by (metis of_int_less_iff of_int_numeral of_int_power)
  have lo: "2 powi (u + int 23) \<le> q"
    unfolding powi_shift q_def using n1 pu by (intro mult_right_mono) simp_all
  have hi: "q < 2 powi (u + int 23 + 1)"
  proof -
    have "u + int 23 + 1 = u + int 24" by simp
    moreover have "q < 2 powi (u + int 24)" 
      unfolding powi_shift q_def using n2 pu by (intro mult_strict_right_mono) simp_all
    ultimately show ?thesis by (simp only:)
  qed
  have il: "ilog2 q = u + int 23" using lo hi by (rule ilog2_eqI)
  have ue: "fp_ulp_exp 24 (- 126) q = u"
    using assms(3) by (simp add: fp_ulp_exp_def il)
  have "q / 2 powi u = of_int n" by (simp add: q_def)
  then have un: "fp_units 24 (- 126) q = n"
    by (simp add: fp_units_def ue round_half_even_of_int)
  have "(u + 149) * 2 ^ 23 + n \<le> 0x7F800000"
    using assms by simp
  then have "min 0x7F800000 ((u + 149) * 2 ^ 23 + n) = (u + 149) * 2 ^ 23 + n"
    by simp
  then show ?thesis using qpos
    by (simp add: f32_encode_def q_def[symmetric] ue un)
qed

lemma f32_ldexp_code:
  assumes "0 \<le> m" "m < 16" "1 \<le> e" "e \<le> 7"
  shows "f32_ldexp (1 + of_int m / of_int (15 + 1)) (e - 3) =
           word_of_int ((e + 124) * 2 ^ 23 + m * 2 ^ 19)"
proof -
  have "e - 3 = (e - 26) + int 23" by simp
  then have "(2::rat) powi (e - 3) = 2 ^ 23 * 2 powi (e - 26)"
    by (simp only: powi_shift)
  then have "(1 + of_int m / of_int (15 + 1)) * (2::rat) powi (e - 3)
        = of_int ((16 + m) * 2 ^ 19) * 2 powi (e - 26)"
    by (simp add: field_simps)
  moreover have "f32_encode False (of_int ((16 + m) * 2 ^ 19) * 2 powi (e - 26)) =
           (if False then 0x80000000 else 0) OR word_of_int ((e - 26 + 149) * 2 ^ 23 + (16 + m) * 2 ^ 19)"
    by (rule f32_encode_normal) (use assms in auto)
  moreover have "(e - 26 + 149) * 2 ^ 23 + (16 + m) * 2 ^ 19 = (e + 124) * 2 ^ 23 + m * 2 ^ 19"
    by simp
  ultimately show ?thesis by (simp only: f32_ldexp_def if_False or.left_neutral)
qed

lemma code_fields_range:
  "0 \<le> uint (c::uint8) div 16 mod 8" "uint c div 16 mod 8 < 8" "0 \<le> uint c mod 16" "uint c mod 16 < 16"
  by simp_all

lemma word32_of_int_uint: "0 \<le> k \<Longrightarrow> k < 2 ^ 32 \<Longrightarrow> uint (word_of_int k :: 32 word) = k"
  by (simp add: uint_word_of_int)

lemma fields_of_bits:
  assumes "k = E * 2 ^ 23 + F" "0 \<le> E" "E < 256" "0 \<le> F" "F < 2 ^ 23"
  shows "f32_expo (word_of_int k) = E"
    and "f32_frac (word_of_int k) = F"
    and "\<not> f32_signbit (word_of_int k)"
proof -
  have r: "0 \<le> k" "k < 2 ^ 31" using assms by auto
  then have u: "uint (word_of_int k :: 32 word) = k"
    by (intro word32_of_int_uint) auto
  show "f32_expo (word_of_int k) = E"
    unfolding f32_expo_uint u using assms by simp
  show "f32_frac (word_of_int k) = F"
    unfolding f32_frac_uint u using assms by simp
  show "\<not> f32_signbit (word_of_int k)"
    unfolding f32_signbit_uint u using r by simp
qed

lemma dequantize_fields:
  assumes "\<not> p3109_reserved c"
  defines "e \<equiv> uint c div 16 mod 8" and "m \<equiv> uint c mod 16"
  shows "f32_signbit (p3109_dequantize c) \<longleftrightarrow> 128 \<le> uint c"
    and "f32_expo (p3109_dequantize c) = (if e = 0 then 0 else e + 124)"
    and "f32_frac (p3109_dequantize c) = (if e = 0 then 0 else m * 2 ^ 19)"
proof -
  have er: "0 \<le> e" "e < 8" and mr: "0 \<le> m" "m < 16" by (simp_all add: e_def m_def)
  define B :: float32 where "B = (if e = 0 then 0 else word_of_int ((e + 124) * 2 ^ 23 + m * 2 ^ 19))"
  have deq: "p3109_dequantize c = (if 128 \<le> uint c then f32_neg B else B)"
  proof (cases "e = 0")
    case True
    then show ?thesis using assms(1)
      by (simp add: p3109_dequantize_def p3109_dequantize_with_def default_layout_def p3109_reserved_def
          Let_def and15 and7 drop_bit_eq_div code_negative B_def e_def)
  next
    case False
    then have "f32_ldexp (1 + of_int m / of_int (15 + 1)) (e - 3) = B"
      unfolding B_def using f32_ldexp_code[of m e] er mr by simp
    then show ?thesis using assms(1) False
      by (simp add: p3109_dequantize_def p3109_dequantize_with_def default_layout_def p3109_reserved_def
          Let_def and15 and7 drop_bit_eq_div code_negative e_def[symmetric] m_def[symmetric])
  qed
  have Bf: "f32_expo B = (if e = 0 then 0 else e + 124)" 
    "f32_frac B = (if e = 0 then 0 else m * 2 ^ 19)" "\<not> f32_signbit B"
  proof -
    have z: "f32_expo 0 = 0" "f32_frac 0 = 0" "\<not> f32_signbit 0"
      by (simp_all add: f32_expo_def f32_frac_def f32_signbit_def)
    have f: "0 \<le> m * 2 ^ 19" "m * 2 ^ 19 < 2 ^ 23" using mr by auto
    have g: "0 \<le> e + 124" "e + 124 < 256" using er by auto
    note fb = fields_of_bits[OF refl g f]
    have n: "f32_expo (word_of_int ((e + 124) * 2 ^ 23 + m * 2 ^ 19)) = e + 124"
      "f32_frac (word_of_int ((e + 124) * 2 ^ 23 + m * 2 ^ 19)) = m * 2 ^ 19"
      "\<not> f32_signbit (word_of_int ((e + 124) * 2 ^ 23 + m * 2 ^ 19))"
      by (rule fb)+
    show "f32_expo B = (if e = 0 then 0 else e + 124)" 
      "f32_frac B = (if e = 0 then 0 else m * 2 ^ 19)" "\<not> f32_signbit B"
      using z n by (simp_all add: B_def)
  qed
  show "f32_signbit (p3109_dequantize c) \<longleftrightarrow> 128 \<le> uint c"
    by (simp add: deq f32_signbit_neg Bf)
  show "f32_expo (p3109_dequantize c) = (if e = 0 then 0 else e + 124)"
    by (simp add: deq f32_expo_neg Bf)
  show "f32_frac (p3109_dequantize c) = (if e = 0 then 0 else m * 2 ^ 19)"
    by (simp add: deq f32_frac_neg Bf)
qed

lemma divmod16: 
  "0 \<le> (m::int) \<Longrightarrow> m < 16 \<Longrightarrow> (16 * k + m) div 16 = k"
  "0 \<le> (m::int) \<Longrightarrow> m < 16 \<Longrightarrow> (16 * k + m) mod 16 = m"
  by simp_all
lemma field_exponent_signed: "\<lbrakk>0 \<le> (e::int); e < 8; 0 \<le> m; m < 16\<rbrakk> \<Longrightarrow> (128 + 16 * e + m) div 16 mod 8 = e"
proof -
  assume a: "0 \<le> e" "e < 8" "0 \<le> m" "m < 16"
  have "128 + 16 * e + m = 16 * (8 + e) + m" by simp
  then have "(128 + 16 * e + m) div 16 = 8 + e" using a divmod16(1)[of m "8 + e"] by simp
  then show ?thesis using a by simp
qed
lemma field_mantissa_signed: "\<lbrakk>0 \<le> (e::int); e < 8; 0 \<le> m; m < 16\<rbrakk> \<Longrightarrow> (128 + 16 * e + m) mod 16 = m"
proof -
  assume a: "0 \<le> e" "e < 8" "0 \<le> m" "m < 16"
  have "128 + 16 * e + m = 16 * (8 + e) + m" by simp
  then show ?thesis using a divmod16(2)[of m "8 + e"] by simp
qed
lemma field_exponent_unsigned: "\<lbrakk>0 \<le> (e::int); e < 8; 0 \<le> m; m < 16\<rbrakk> \<Longrightarrow> (16 * e + m) div 16 mod 8 = e"
  by (simp add: divmod16)
lemma byte_fields_sum: "\<lbrakk>0 \<le> (n::int); n < 256\<rbrakk> \<Longrightarrow> (if 128 \<le> n then 128 else 0) + 16 * (n div 16 mod 8) + n mod 16 = n"
proof -
  assume a: "0 \<le> n" "n < 256"
  define q r l where "q = n div 16" and "r = n mod 16" and "l = q mod 8"
  have 1: "n = 16 * q + r" by (simp add: q_def r_def)
  have "q div 8 = n div 128" by (simp add: q_def zdiv_zmult2_eq[symmetric])
  also have "\<dots> = (if 128 \<le> n then 1 else 0)" using a by auto
  finally have 3: "q div 8 = (if 128 \<le> n then 1 else 0)" .
  have "q = 8 * (q div 8) + l" by (simp add: l_def)
  then have 2: "q = (if 128 \<le> n then 8 else 0) + l" unfolding 3 by (simp split: if_splits)
  have "(if 128 \<le> n then 128 else 0) + 16 * l + r = n" using 1 2 by (simp split: if_splits)
  then show ?thesis by (simp only: q_def r_def l_def)
qed

lemma code_exponent_alt: "code_exponent c = uint c div 16 mod 8"
  by (simp add: code_exponent_def and7 drop_bit_eq_div)

lemma code_mantissa_alt: "code_mantissa c = uint c mod 16"
  by (simp add: code_mantissa_def and15)

lemma uint_code_of:
  assumes "0 \<le> e" "e < 8" "0 \<le> m" "m < 16"
  shows "uint (code_of s e m) = (if s then 128 else 0) + 16 * e + m"
  unfolding code_of_def using assms by (intro uint8_of_int) auto

lemma code_of_fields:
  assumes "0 \<le> e" "e < 8" "0 \<le> m" "m < 16"
  shows "code_exponent (code_of s e m) = e" "code_mantissa (code_of s e m) = m"
    "128 \<le> uint (code_of s e m) \<longleftrightarrow> s"
  using assms field_exponent_signed[of e m] field_mantissa_signed[of e m] field_exponent_unsigned[of e m]
  by (auto simp: code_exponent_alt code_mantissa_alt uint_code_of divmod16)

lemma code_of_uint:
  "code_of (128 \<le> uint c) (uint c div 16 mod 8) (uint c mod 16) = c"
proof -
  have "0 \<le> uint c" "uint c < 256" using uint_bounded[of c] by simp_all
  then have "(if 128 \<le> uint c then 128 else 0) + 16 * (uint c div 16 mod 8) + uint c mod 16 = uint c"
    by (rule byte_fields_sum)
  then show ?thesis by (simp only: code_of_def word_of_int_uint)
qed

lemma code_of_reserved:
  "code_of s e m = 0xFF \<longleftrightarrow> uint (code_of s e m) = 255"
  "code_of s e m = 0x7F \<longleftrightarrow> uint (code_of s e m) = 127"
  "code_of s e m = 0xFE \<longleftrightarrow> uint (code_of s e m) = 254"
  by (simp_all add: word_uint_eq_iff)

lemma code_of_not_reserved:
  assumes "0 \<le> e" "e \<le> 6" "0 \<le> m" "m < 16"
  shows "\<not> p3109_reserved (code_of s e m)"
  using assms by (auto simp: p3109_reserved_def code_of_reserved uint_code_of)

lemma quantize_dequantize_fields:
  assumes "\<not> p3109_reserved c"
  shows "p3109_quantize (p3109_dequantize c) =
     (if code_exponent c = 0 then code_of (128 \<le> uint c) 0 0
      else if code_exponent c = 7 then code_of (128 \<le> uint c) 6 15
      else c)"
proof -
  define e where "e = uint c div 16 mod 8"
  define m where "m = uint c mod 16"
  define s where "s \<longleftrightarrow> 128 \<le> uint c"
  have er: "0 \<le> e" "e < 8" and mr: "0 \<le> m" "m < 16" by (simp_all add: e_def m_def)
  note df = dequantize_fields[OF assms, folded e_def m_def s_def]
  have q: "p3109_quantize (p3109_dequantize c) =
      quant_fields s (if e = 0 then 0 else e + 124) (if e = 0 then 0 else m * 2 ^ 19)"
    by (simp only: quantize_fields df)
  have mm: "(m * 2 ^ 19 + 2 ^ 18) div 2 ^ 19 = m" using mr by simp
  have c: "code_of s e m = c" unfolding s_def e_def m_def by (rule code_of_uint)
  consider "e = 0" | "e = 7" | "1 \<le> e" "e \<le> 6" using er by linarith
  then have "quant_fields s (if e = 0 then 0 else e + 124) (if e = 0 then 0 else m * 2 ^ 19)
     = (if e = 0 then code_of s 0 0 else if e = 7 then code_of s 6 15 else c)"
  proof cases
    case 1
    then show ?thesis by (simp add: quant_fields_def)
  next
    case 2
    then show ?thesis by (simp add: quant_fields_def)
  next
    case 3
    then have "quant_fields s (e + 124) (m * 2 ^ 19) = code_of s e m"
      using mr mm by (simp add: quant_fields_def)
    then show ?thesis using 3 c by simp
  qed
  then show ?thesis by (simp only: q code_exponent_alt e_def[symmetric] s_def)
qed

subsection \<open>The range of quantization and the round trip\<close>

lemma code_of_canonical:
  assumes "(e = 0 \<and> m = 0) \<or> (1 \<le> e \<and> e \<le> 6 \<and> 0 \<le> m \<and> m < 16)"
  shows "p3109_canonical (code_of s e m)"
proof -
  have r: "0 \<le> e" "e < 8" "0 \<le> m" "m < 16" using assms by auto
  show ?thesis
    unfolding p3109_canonical_def code_of_fields(1)[OF r] code_of_fields(2)[OF r]
    using assms by auto
qed

lemma reserved_exponent: "p3109_reserved c \<Longrightarrow> code_exponent c = 7"
  by (auto simp: p3109_reserved_def code_exponent_alt)

lemma canonical_not_reserved: "p3109_canonical c \<Longrightarrow> \<not> p3109_reserved c"
  using reserved_exponent[of c] by (auto simp: p3109_canonical_def)

lemma quant_fields_range:
  assumes "0 \<le> E" "E < 256" "0 \<le> F" "F < 8388608"
  shows "p3109_reserved (quant_fields s E F) \<or> p3109_canonical (quant_fields s E F)"
proof -
  define m where "m = (F + 2 ^ 18) div 2 ^ 19"
  have mr: "0 \<le> m" using assms by (simp add: m_def)
  have c1: "p3109_canonical (code_of s 6 15)" by (rule code_of_canonical) simp
  have c2: "p3109_canonical (code_of s 0 0)" by (rule code_of_canonical) simp
  have c3: "p3109_canonical (code_of s (E - 123) 0)" if "125 \<le> E" "E < 130"
    by (rule code_of_canonical) (use that in simp)
  have c4: "p3109_canonical (code_of s (E - 124) m)" if "125 \<le> E" "E \<le> 130" "\<not> 15 < m"
    by (rule code_of_canonical) (use that mr in simp)
  show ?thesis
    unfolding quant_fields_def m_def[symmetric]
    using c1 c2 c3 c4 assms(1,2) by (auto simp: p3109_reserved_def)
qed

lemma quantize_range:
  "p3109_reserved (p3109_quantize v) \<or> p3109_canonical (p3109_quantize v)"
  unfolding quantize_fields
  using f32_expo_range[of v] f32_frac_range[of v] by (intro quant_fields_range) simp_all

lemma roundtrip_canonical:
  assumes "p3109_canonical c"
  shows "p3109_quantize (p3109_dequantize c) = c"
proof -
  have nr: "\<not> p3109_reserved c" using assms by (rule canonical_not_reserved)
  have c: "code_of (128 \<le> uint c) (uint c div 16 mod 8) (uint c mod 16) = c"
    by (rule code_of_uint)
  show ?thesis
  proof (cases "code_exponent c = 0")
    case True
    then have "code_mantissa c = 0" using assms by (simp add: p3109_canonical_def)
    then show ?thesis using True c
      by (simp add: quantize_dequantize_fields[OF nr] code_exponent_alt code_mantissa_alt)
  next
    case False
    then show ?thesis using assms
      by (simp add: quantize_dequantize_fields[OF nr] p3109_canonical_def)
  qed
qed

lemma dequantize_reserved:
  "p3109_dequantize 0xFF = 0x7FC00000" "p3109_dequantize 0x7F = 0x7F800000"
  "p3109_dequantize 0xFE = 0xFF800000"
  by (simp_all add: p3109_dequantize_def p3109_dequantize_with_def f32_quiet_NaN_def
      f32_infinity_def f32_neg_def)

lemma quantize_specials:
  "p3109_quantize 0x7FC00000 = 0xFF" "p3109_quantize 0xFFC00000 = 0xFF"
  "p3109_quantize 0x7F800000 = 0x7F" "p3109_quantize 0xFF800000 = 0xFE"
  by (simp_all add: quantize_fields quant_fields_def f32_expo_def f32_frac_def f32_signbit_def)

lemma roundtrip_reserved:
  assumes "p3109_reserved c"
  shows "p3109_quantize (p3109_dequantize c) = c"
  using assms by (auto simp: p3109_reserved_def dequantize_reserved quantize_specials)

lemma quantize_idempotent:
  "p3109_quantize (p3109_dequantize (p3109_quantize v)) = p3109_quantize v"
  using quantize_range[of v] roundtrip_canonical roundtrip_reserved by blast

subsection \<open>Saturation and negation\<close>








subsection \<open>The values the floats denote\<close>


lemma f32_mag_frexp:
  assumes "f32_expo w \<noteq> 255" "\<not> f32_eq_zero w"
  shows "f32_mag w = fst (f32_frexp w) * 2 powi snd (f32_frexp w)"
    and "1 / 2 \<le> fst (f32_frexp w)" and "fst (f32_frexp w) < 1"
proof -
  define E where "E = f32_expo w"
  define F where "F = f32_frac w"
  have Fr: "0 \<le> F" "F < 2 ^ 23" using f32_frac_range[of w] by (simp_all add: F_def)
  have Er: "0 \<le> E" using f32_expo_range[of w] by (simp add: E_def)
  show "f32_mag w = fst (f32_frexp w) * 2 powi snd (f32_frexp w)"
  proof (cases "E = 0")
    case True
    then have F0: "F \<noteq> 0" using assms(2) by (simp add: f32_eq_zero_fields E_def F_def)
    define n where "n = floorlog 2 (nat F)"
    have pw: "(2::rat) powi (int n - 149) = 2 ^ n / 2 ^ 149"
      using power_int_diff[of "2::rat" "int n" 149] by simp
    have fr: "f32_frexp w = (of_int F / 2 ^ n, int n - 149)"
      using True F0 by (simp add: f32_frexp_def E_def[symmetric] F_def[symmetric] n_def)
    have "fst (f32_frexp w) * 2 powi snd (f32_frexp w) = of_int F / 2 ^ n * (2 ^ n / 2 ^ 149)"
      by (simp only: fr fst_conv snd_conv pw)
    also have "\<dots> = of_int F / 2 ^ 149" by simp
    finally show ?thesis using True
      by (simp add: f32_mag_def E_def[symmetric] F_def[symmetric])
  next
    case False
    have "E - 126 = (E - 150) + int 24" by simp
    then have "(2::rat) powi (E - 126) = 2 ^ 24 * 2 powi (E - 150)"
      by (simp only: powi_shift)
    then show ?thesis using False
      by (simp add: f32_mag_def f32_frexp_def E_def[symmetric] F_def[symmetric])
  qed
  show "1 / 2 \<le> fst (f32_frexp w)"
  proof (cases "E = 0")
    case True
    then have F0: "0 < F" using assms(2) Fr by (simp add: f32_eq_zero_fields E_def F_def)
    then have "0 < nat F" by simp
    from floorlog_bounds[OF this, of 2]
    have "2 ^ (floorlog 2 (nat F) - 1) \<le> nat F" by simp
    then have "(2::rat) ^ (floorlog 2 (nat F) - 1) \<le> of_nat (nat F)"
      by (metis of_nat_le_iff of_nat_numeral of_nat_power)
    moreover have "floorlog 2 (nat F) \<noteq> 0"
      using F0 by (simp add: floorlog_eq_zero_iff)
    then have "0 < floorlog 2 (nat F)" by simp
    ultimately have "(2::rat) ^ floorlog 2 (nat F) \<le> 2 * of_int F"
      using F0 by (cases "floorlog 2 (nat F)") simp_all
    then show ?thesis using True F0
      by (simp add: f32_frexp_def E_def[symmetric] F_def[symmetric] field_simps)
  next
    case False
    then show ?thesis using Fr
      by (simp add: f32_frexp_def E_def[symmetric] F_def[symmetric])
  qed
  show "fst (f32_frexp w) < 1"
  proof (cases "E = 0")
    case True
    then have F0: "0 < F" using assms(2) Fr by (simp add: f32_eq_zero_fields E_def F_def)
    then have "0 < nat F" by simp
    from floorlog_bounds[OF this, of 2]
    have "nat F < 2 ^ floorlog 2 (nat F)" by simp
    then have "of_nat (nat F) < (2::rat) ^ floorlog 2 (nat F)"
      by (metis of_nat_less_iff of_nat_numeral of_nat_power)
    then show ?thesis using True F0
      by (simp add: f32_frexp_def E_def[symmetric] F_def[symmetric])
  next
    case False
    have "rat_of_int F < 2 ^ 23" using Fr(2) by (metis of_int_less_iff of_int_numeral of_int_power)
    then show ?thesis using False Fr
      by (simp add: f32_frexp_def E_def[symmetric] F_def[symmetric])
  qed
qed




lemma f32_mag_neg: "f32_mag (f32_neg w) = f32_mag w"
  by (simp add: f32_mag_def f32_expo_neg f32_frac_neg)

lemma sign_or_eq_neg:
  assumes "0 \<le> k" "k < 2 ^ 31"
  shows "(0x80000000 :: float32) OR word_of_int k = f32_neg (word_of_int k)"
proof -
  have u: "uint (word_of_int k :: float32) = k"
    using assms by (intro word32_of_int_uint) auto
  have "uint ((if True then 0x80000000 else 0) OR (word_of_int k :: float32)) =
        (if True then 2 ^ 31 else 0) + k"
    using assms by (rule sign_plus_uint)
  moreover have "uint (f32_neg (word_of_int k)) = k + 2 ^ 31"
    using assms by (simp add: f32_neg_uint u)
  ultimately show ?thesis by (simp add: word_uint_eq_iff)
qed

lemma f32_mag_encode_normal:
  assumes "2 ^ 23 \<le> n" "n < 2 ^ 24" "- 149 \<le> u" "u \<le> 104"
  shows "f32_mag (f32_encode neg (of_int n * 2 powi u)) = of_int n * 2 powi u"
    and "f32_signbit (f32_encode neg (of_int n * 2 powi u)) = neg"
proof -
  define k where "k = (u + 149) * 2 ^ 23 + n"
  have k: "k = (u + 150) * 2 ^ 23 + (n - 2 ^ 23)" by (simp add: k_def algebra_simps)
  have kr: "0 \<le> k" "k < 2 ^ 31" using assms by (simp_all add: k_def)
  have fb: "f32_expo (word_of_int k) = u + 150" "f32_frac (word_of_int k) = n - 2 ^ 23"
    "\<not> f32_signbit (word_of_int k)"
    by (rule fields_of_bits[OF k]; use assms in simp)+
  have m: "f32_mag (word_of_int k) = of_int n * 2 powi u"
    using assms(3) by (simp add: f32_mag_def fb)
  have enc: "f32_encode neg (of_int n * 2 powi u) =
      (if neg then f32_neg (word_of_int k) else word_of_int k)"
    using f32_encode_normal[OF assms, of neg] sign_or_eq_neg[OF kr]
    by (simp add: k_def)
  show "f32_mag (f32_encode neg (of_int n * 2 powi u)) = of_int n * 2 powi u"
    by (simp add: enc f32_mag_neg m)
  show "f32_signbit (f32_encode neg (of_int n * 2 powi u)) = neg"
    by (simp add: enc f32_signbit_neg fb)
qed

section \<open>Claims about the codec\<close>

text \<open>
  C1 (corrected). The claim: for every non-reserved code \<open>c\<close> (not \<open>0xFF\<close>, \<open>0x7F\<close>,
  \<open>0xFE\<close>), \<open>quantize (dequantize c) = c\<close>. It fails at \<open>c = 0x70\<close>: the code
  dequantizes to \<open>16.0\<close>, whose exponent exceeds \<^verbatim>\<open>max_exp\<close>, and quantization saturates
  to \<open>0x6F\<close>.
\<close>

theorem C1_roundtrip_counterexample:
  "\<not> p3109_reserved 0x70 \<and> p3109_quantize (p3109_dequantize 0x70) \<noteq> 0x70"
  by (simp add: p3109_reserved_def p3109_dequantize_def p3109_dequantize_with_def default_layout_def
      f32_ldexp_def f32_encode_def fp_ulp_exp_def fp_units_def ilog2_def round_half_even_def
      compute_floorlog p3109_quantize_def p3109_quantize_with_def f32_isnan_def f32_isinf_def
      f32_expo_def f32_frac_def f32_frexp_def f32_fabs_def f32_eq_zero_def f32_signbit_def
      c_round_def Let_def)

text \<open>
  C1 (amended). For every non-reserved code \<open>c\<close>, \<open>quantize (dequantize c) = c\<close> holds
  exactly when \<open>c\<close> is one of the two zero codes \<open>0x00\<close>, \<open>0x80\<close> or has an exponent
  field between 1 and 6.
\<close>

theorem C1_roundtrip_iff_canonical:
  assumes "\<not> p3109_reserved c"
  shows "p3109_quantize (p3109_dequantize c) = c \<longleftrightarrow> p3109_canonical c"
proof
  assume "p3109_canonical c"
  then show "p3109_quantize (p3109_dequantize c) = c" by (rule roundtrip_canonical)
next
  assume rt: "p3109_quantize (p3109_dequantize c) = c"
  have "p3109_reserved (p3109_quantize (p3109_dequantize c)) \<or>
        p3109_canonical (p3109_quantize (p3109_dequantize c))"
    by (rule quantize_range)
  then show "p3109_canonical c" using assms by (simp add: rt)
qed

theorem C1_roundtrip_iff_canonical_witness:
  "\<not> p3109_reserved 0x35 \<and> p3109_canonical 0x35 \<and> p3109_quantize (p3109_dequantize 0x35) = 0x35"
proof -
  have nr: "\<not> p3109_reserved 0x35" by (simp add: p3109_reserved_def)
  have c: "p3109_canonical 0x35" by (simp add: p3109_canonical_def code_exponent_def code_mantissa_def)
  show ?thesis using nr c C1_roundtrip_iff_canonical[OF nr] by simp
qed

text \<open>
  C3. For every pair of operands and each of the four binary operators, the code of the
  result is the same whether \<^verbatim>\<open>accumulate_in_fp32_\<close> is true or false, whatever the
  \<^verbatim>\<open>float\<close> operation returns: quantization after a dequantize-quantize round trip gives
  the code quantization gives directly.
\<close>

theorem C3_accumulate_flag_irrelevant:
  "op_plus fadd True a b = op_plus fadd False a b \<and>
   op_minus fsub True a b = op_minus fsub False a b \<and>
   op_times fmul True a b = op_times fmul False a b \<and>
   op_divide fdiv True a b = op_divide fdiv False a b"
  by (simp add: op_plus_def op_minus_def op_times_def op_divide_def plus_assign_def
      minus_assign_def times_assign_def divide_assign_def quantize_idempotent)

text \<open>
  C10. For every \<^verbatim>\<open>float\<close> input the code quantization returns is reserved or has an
  exponent field of at most 6; a non-reserved code with exponent field 7 is never
  returned, although dequantization gives it a finite value.
\<close>

theorem C10_quantize_exponent_bound:
  "(p3109_reserved (p3109_quantize v) \<or> code_exponent (p3109_quantize v) \<le> 6) \<and>
   (\<not> p3109_reserved c \<and> code_exponent c = 7 \<longrightarrow>
      p3109_quantize v \<noteq> c \<and> f32_finite (p3109_dequantize c))"
proof -
  have r: "p3109_reserved (p3109_quantize v) \<or> p3109_canonical (p3109_quantize v)"
    by (rule quantize_range)
  have 1: "p3109_reserved (p3109_quantize v) \<or> code_exponent (p3109_quantize v) \<le> 6"
    using r by (auto simp: p3109_canonical_def)
  have 2: "p3109_quantize v \<noteq> c \<and> f32_finite (p3109_dequantize c)"
    if nr: "\<not> p3109_reserved c" and e: "code_exponent c = 7"
  proof
    show "p3109_quantize v \<noteq> c" using r nr e by (auto simp: p3109_canonical_def)
    have "f32_expo (p3109_dequantize c) = 131"
      using dequantize_fields(2)[OF nr] e by (simp add: code_exponent_alt)
    then show "f32_finite (p3109_dequantize c)"
      by (simp add: f32_finite_def f32_isnan_def f32_isinf_def)
  qed
  show ?thesis using 1 2 by blast
qed

theorem C10_quantize_exponent_bound_witness:
  "\<not> p3109_reserved 0x70 \<and> code_exponent 0x70 = 7 \<and>
   p3109_quantize 0x41800000 \<noteq> 0x70 \<and> f32_finite (p3109_dequantize 0x70) \<and>
   (p3109_reserved (p3109_quantize 0x41800000) \<or> code_exponent (p3109_quantize 0x41800000) \<le> 6)"
proof -
  have nr: "\<not> p3109_reserved 0x70" by (simp add: p3109_reserved_def)
  have e: "code_exponent 0x70 = 7" by (simp add: code_exponent_def)
  show ?thesis using nr e C10_quantize_exponent_bound[of "0x41800000" "0x70"] by simp
qed






text \<open>
  C5. Quantization maps every NaN to the code \<open>0xFF\<close>, which dequantizes to a NaN;
  plus and minus infinity quantize to \<open>0x7F\<close> and \<open>0xFE\<close>, which dequantize to plus and
  minus infinity; \<open>0.0\<close> (bits \<open>0\<close>) and \<open>-0.0\<close> (bits \<open>0x80000000\<close>) quantize to
  \<open>0x00\<close> and \<open>0x80\<close>, which dequantize to the zero of the same sign.
\<close>

theorem C5_special_values:
  "(f32_isnan v \<longrightarrow> p3109_quantize v = 0xFF \<and> f32_isnan (p3109_dequantize (p3109_quantize v))) \<and>
   f32_isnan f32_quiet_NaN \<and> p3109_dequantize 0xFF = f32_quiet_NaN \<and>
   p3109_quantize f32_infinity = 0x7F \<and> p3109_dequantize 0x7F = f32_infinity \<and>
   p3109_quantize (f32_neg f32_infinity) = 0xFE \<and> p3109_dequantize 0xFE = f32_neg f32_infinity \<and>
   f32_isinf f32_infinity \<and> \<not> f32_signbit f32_infinity \<and>
   f32_isinf (f32_neg f32_infinity) \<and> f32_signbit (f32_neg f32_infinity) \<and>
   p3109_quantize 0 = 0x00 \<and> p3109_dequantize 0x00 = 0 \<and>
   p3109_quantize 0x80000000 = 0x80 \<and> p3109_dequantize 0x80 = 0x80000000 \<and>
   f32_eq_zero 0 \<and> \<not> f32_signbit 0 \<and> f32_eq_zero 0x80000000 \<and> f32_signbit 0x80000000"
proof -
  have n: "f32_isnan (p3109_dequantize 0xFF)" "f32_isnan f32_quiet_NaN"
    by (simp_all add: dequantize_reserved f32_quiet_NaN_def f32_isnan_def f32_expo_def f32_frac_def)
  have q: "p3109_quantize v = 0xFF" if "f32_isnan v"
    using that by (simp add: p3109_quantize_def p3109_quantize_with_def)
  have z: "p3109_quantize 0 = 0x00" "p3109_quantize 0x80000000 = 0x80"
    by (simp_all add: quantize_fields quant_fields_def code_of_def f32_expo_def f32_frac_def
        f32_signbit_def)
  have dz: "p3109_dequantize 0x00 = 0" "p3109_dequantize 0x80 = 0x80000000"
    by (simp_all add: p3109_dequantize_def p3109_dequantize_with_def default_layout_def f32_neg_def)
  have i: "f32_isinf f32_infinity" "\<not> f32_signbit f32_infinity"
    "f32_isinf (f32_neg f32_infinity)" "f32_signbit (f32_neg f32_infinity)"
    "f32_eq_zero 0" "\<not> f32_signbit 0" "f32_eq_zero 0x80000000" "f32_signbit 0x80000000"
    by (simp_all add: f32_infinity_def f32_neg_def f32_isinf_def f32_expo_def f32_frac_def
        f32_signbit_def f32_eq_zero_def)
  show ?thesis
    using n q z dz i dequantize_reserved quantize_specials
    by (simp add: f32_infinity_def f32_neg_def f32_quiet_NaN_def)
qed

theorem C5_special_values_witness:
  "f32_isnan 0xFFC00001 \<and> p3109_quantize 0xFFC00001 = 0xFF \<and>
   f32_isnan (p3109_dequantize (p3109_quantize 0xFFC00001))"
proof -
  have n: "f32_isnan 0xFFC00001"
    by (simp add: f32_isnan_def f32_expo_def f32_frac_def)
  show ?thesis using n C5_special_values[of "0xFFC00001"] by simp
qed

section \<open>Lemmas about the kernels and the registry\<close>

lemma newton_loop_run:
  assumes "iter + k \<le> NewtonOptions.max_iters opts"
    and "\<forall>j<k. \<not> newton_criterion to_double D f opts ((newton_step T f df ^^ j) x) \<and>
               \<not> newton_derivative_zero to_double D df ((newton_step T f df ^^ j) x)"
  shows "newton_loop T to_double D f df opts iter x =
         newton_loop T to_double D f df opts (iter + k) ((newton_step T f df ^^ k) x)"
  using assms
proof (induction k arbitrary: iter x)
  case 0
  then show ?case by simp
next
  case (Suc k)
  have c0: "\<not> newton_criterion to_double D f opts x"
    and z0: "\<not> newton_derivative_zero to_double D df x"
    using Suc.prems(2) by (auto dest: spec[of _ 0])
  have lt: "iter < NewtonOptions.max_iters opts" using Suc.prems(1) by simp
  have step: "newton_loop T to_double D f df opts iter x =
      newton_loop T to_double D f df opts (iter + 1) (newton_step T f df x)"
    using c0 z0 lt
    by (subst newton_loop.simps)
       (simp add: newton_criterion_def newton_derivative_zero_def newton_step_def Let_def)
  have rest: "\<forall>j<k. \<not> newton_criterion to_double D f opts
                     ((newton_step T f df ^^ j) (newton_step T f df x)) \<and>
                 \<not> newton_derivative_zero to_double D df
                     ((newton_step T f df ^^ j) (newton_step T f df x))"
  proof (intro allI impI)
    fix j assume "j < k"
    then have "Suc j < Suc k" by simp
    with Suc.prems(2) show "\<not> newton_criterion to_double D f opts
                     ((newton_step T f df ^^ j) (newton_step T f df x)) \<and>
                 \<not> newton_derivative_zero to_double D df
                     ((newton_step T f df ^^ j) (newton_step T f df x))"
      by (metis funpow_Suc_right o_apply)
  qed
  have "newton_loop T to_double D f df opts (iter + 1) (newton_step T f df x) =
        newton_loop T to_double D f df opts (iter + 1 + k)
          ((newton_step T f df ^^ k) (newton_step T f df x))"
    using Suc.prems(1) rest by (intro Suc.IH) simp_all
  then show ?case using step by (simp add: funpow_swap1)
qed

lemma newton_loop_converged:
  assumes "iter < NewtonOptions.max_iters opts" "newton_criterion to_double D f opts x"
  shows "newton_loop T to_double D f df opts iter x =
         \<lparr>root = x, NewtonResult.iterations = iter, NewtonResult.converged = True\<rparr>"
  using assms by (subst newton_loop.simps) (simp add: newton_criterion_def Let_def)

lemma newton_loop_derivative_zero:
  assumes "iter < NewtonOptions.max_iters opts" "\<not> newton_criterion to_double D f opts x"
    "newton_derivative_zero to_double D df x"
  shows "newton_loop T to_double D f df opts iter x =
         \<lparr>root = x, NewtonResult.iterations = iter, NewtonResult.converged = False\<rparr>"
  using assms
  by (subst newton_loop.simps)
     (simp add: newton_criterion_def newton_derivative_zero_def Let_def)

lemma newton_loop_exhausted:
  "newton_loop T to_double D f df opts (NewtonOptions.max_iters opts) x =
     \<lparr>root = x, NewtonResult.iterations = NewtonOptions.max_iters opts,
      NewtonResult.converged = False\<rparr>"
  by (subst newton_loop.simps) simp

lemma length_gd_update [simp]:
  "length (gd_update T step gradient ndim i xs) = length xs"
proof (induction T step gradient ndim i xs rule: gd_update.induct)
  case (1 T step gradient ndim i xs)
  show ?case
  proof (cases "i < ndim")
    case True
    then show ?thesis using 1 by (subst gd_update.simps) simp
  next
    case False
    then show ?thesis by (subst gd_update.simps) simp
  qed
qed

lemma gd_in_range_step:
  "gd_in_range Q b (fst (gd_step T of_double Q b ndim opts st)) ndim =
   gd_in_range Q b (fst st) ndim"
  by (simp add: gd_in_range_def gd_step_def Let_def)

lemma gd_loop_run:
  assumes "iter + k \<le> GradientDescentOptions.max_iters opts"
    and "gd_in_range Q b xs ndim"
    and "\<forall>j<k. \<not> gd_stop T to_double D Q b ndim opts
                  ((gd_step T of_double Q b ndim opts ^^ j) (xs, g))"
  shows "gd_loop T to_double of_double D Q b ndim opts iter xs g =
         gd_loop T to_double of_double D Q b ndim opts (iter + k)
           (fst ((gd_step T of_double Q b ndim opts ^^ k) (xs, g)))
           (snd ((gd_step T of_double Q b ndim opts ^^ k) (xs, g)))"
  using assms
proof (induction k arbitrary: iter xs g)
  case 0
  then show ?case by simp
next
  case (Suc k)
  let ?step = "gd_step T of_double Q b ndim opts"
  have s0: "\<not> gd_stop T to_double D Q b ndim opts (xs, g)"
    using Suc.prems(3) by (auto dest: spec[of _ 0])
  have lt: "iter < GradientDescentOptions.max_iters opts" using Suc.prems(1) by simp
  have step: "gd_loop T to_double of_double D Q b ndim opts iter xs g =
      gd_loop T to_double of_double D Q b ndim opts (iter + 1)
        (fst (?step (xs, g))) (snd (?step (xs, g)))"
    using s0 lt Suc.prems(2)
    by (subst gd_loop.simps)
       (simp add: gd_stop_def gd_criterion_def gd_step_def Let_def)
  have rng: "gd_in_range Q b (fst (?step (xs, g))) ndim"
    using Suc.prems(2) by (simp add: gd_in_range_step)
  have rest: "\<forall>j<k. \<not> gd_stop T to_double D Q b ndim opts
                  ((?step ^^ j) (fst (?step (xs, g)), snd (?step (xs, g))))"
  proof (intro allI impI)
    fix j assume "j < k"
    then have "Suc j < Suc k" by simp
    with Suc.prems(3) show "\<not> gd_stop T to_double D Q b ndim opts
                  ((?step ^^ j) (fst (?step (xs, g)), snd (?step (xs, g))))"
      by (metis funpow_Suc_right o_apply prod.collapse)
  qed
  have "gd_loop T to_double of_double D Q b ndim opts (iter + 1)
          (fst (?step (xs, g))) (snd (?step (xs, g))) =
        gd_loop T to_double of_double D Q b ndim opts (iter + 1 + k)
          (fst ((?step ^^ k) (fst (?step (xs, g)), snd (?step (xs, g)))))
          (snd ((?step ^^ k) (fst (?step (xs, g)), snd (?step (xs, g)))))"
    using Suc.prems(1) rng rest by (intro Suc.IH) simp_all
  then show ?case using step by (simp add: funpow_swap1)
qed

lemma gd_in_range_funpow:
  "gd_in_range Q b (fst ((gd_step T of_double Q b ndim opts ^^ k) st)) ndim =
   gd_in_range Q b (fst st) ndim"
  by (induction k) (simp_all add: gd_in_range_step)

lemma gd_loop_converged:
  assumes "iter < GradientDescentOptions.max_iters opts" "gd_in_range Q b xs ndim"
    "gd_stop T to_double D Q b ndim opts (xs, g)"
  shows "gd_loop T to_double of_double D Q b ndim opts iter xs g =
         Some \<lparr>gd_x = xs, iterations = iter, converged = True\<rparr>"
  using assms by (subst gd_loop.simps) (simp add: gd_stop_def gd_criterion_def Let_def)

lemma gd_loop_exhausted:
  "gd_loop T to_double of_double D Q b ndim opts (GradientDescentOptions.max_iters opts) xs g =
     Some \<lparr>gd_x = xs, iterations = GradientDescentOptions.max_iters opts, converged = False\<rparr>"
  by (subst gd_loop.simps) simp

lemma floor_numeral_divide:
  "\<lfloor>(numeral a :: rat) / numeral b\<rfloor> = numeral a div numeral b"
  using floor_divide_of_int_eq[of "numeral a" "numeral b", where 'a = rat] by simp

lemma ceiling_numeral_divide:
  "\<lceil>(numeral a :: rat) / numeral b\<rceil> = - ((- numeral a) div numeral b)"
  using floor_divide_of_int_eq[of "- numeral a" "numeral b", where 'a = rat]
  by (simp add: ceiling_def)

lemmas fp_eval = fp_round_def fp_units_def fp_ulp_exp_def ilog2_def round_half_even_def
  compute_floorlog sval_def Let_def floor_numeral_divide ceiling_numeral_divide

lemma dbls: "dbl (1/2) = Finite False (1/2)" "dbl 1 = Finite False 1" "dbl 2 = Finite False 2"
  "dbl 3 = Finite False 3" "dbl 4 = Finite False 4" "dbl (3/2) = Finite False (3/2)"
  "dbl (5/2) = Finite False (5/2)" "dbl (7/2) = Finite False (7/2)"
  by (simp_all add: dbl_def fp_eval)

lemmas rat_ops = rat_arith_def rat_double_ops_def

lemma precision_from_string_unknown:
  assumes "to_lower name \<notin> set (map fst precision_map)"
  shows "precision_from_string name = Inl (RuntimeError (''Unknown precision string: '' @ name))"
proof -
  have "map_of precision_map (to_lower name) = None"
    using assms by (simp add: map_of_eq_None_iff)
  then show ?thesis by (simp add: precision_from_string_def)
qed

lemma parse_precisions_unknown:
  assumes "name \<in> set entries" "to_lower name \<notin> set (map fst precision_map)"
  shows "\<exists>e. parse_precisions entries = Inl e"
  using assms
proof (induction entries)
  case Nil
  then show ?case by simp
next
  case (Cons entry rest)
  show ?case
  proof (cases "precision_from_string entry")
    case (Inl e)
    then show ?thesis by simp
  next
    case (Inr p)
    then have "entry \<noteq> name"
      using precision_from_string_unknown[OF Cons.prems(2)] by auto
    then have "name \<in> set rest" using Cons.prems(1) by simp
    then obtain e where "parse_precisions rest = Inl e"
      using Cons.IH Cons.prems(2) by blast
    then show ?thesis using Inr by simp
  qed
qed

section \<open>Claims about the kernels and the registry\<close>

text \<open>
  C6 (corrected). The claim: in both iterative kernels, if the stopping criterion already
  holds at the initial point the kernel returns \<open>iterations = 0\<close>, \<open>converged = true\<close>.
  With an iteration budget \<^verbatim>\<open>max_iters = 0\<close> the loop body, and with it the criterion, is never
  evaluated: both kernels return \<open>converged = false\<close> although the criterion holds at the
  initial point.
\<close>

theorem C6_budget_zero_counterexample:
  "newton_criterion id rat_double_ops id
     \<lparr>NewtonOptions.max_iters = 0, NewtonOptions.tol = 1\<rparr> 0 \<and>
   newton_raphson rat_arith id rat_double_ops 0 id id
     \<lparr>NewtonOptions.max_iters = 0, NewtonOptions.tol = 1\<rparr> =
     \<lparr>root = 0, NewtonResult.iterations = 0, NewtonResult.converged = False\<rparr> \<and>
   gd_stop rat_arith id rat_double_ops [] [] 0
     \<lparr>step_size = 1, max_iters = 0, tol = 1\<rparr> ([], []) \<and>
   gradient_descent_quadratic rat_arith id id rat_double_ops [] [] [] 0
     \<lparr>step_size = 1, max_iters = 0, tol = 1\<rparr> =
     Some \<lparr>gd_x = [], iterations = 0, converged = False\<rparr>"
  by (simp add: newton_criterion_def newton_raphson_def newton_loop.simps rat_ops
      gd_stop_def gd_criterion_def gd_gradient.simps gradient_descent_quadratic_def gd_loop.simps)

text \<open>
  C6 (amended). In both iterative kernels the stopping criterion is evaluated before the
  update: when it first holds at the iterate of index \<open>k\<close> and \<open>k\<close> is below the iteration
  budget \<^verbatim>\<open>max_iters\<close>, the kernel returns that iterate with \<open>iterations = k\<close> and
  \<open>converged = true\<close>; in particular, with a budget of at least one iteration and the
  criterion holding at the initial point, it returns the initial point unchanged with
  \<open>iterations = 0\<close> and \<open>converged = true\<close>. (For Newton-Raphson the iterates before
  \<open>k\<close> have a non-zero derivative, for gradient descent the vectors have the sizes
  \<^verbatim>\<open>dim\<close> requires.)
\<close>

theorem C6_criterion_before_update:
  "(k < NewtonOptions.max_iters nopts \<and>
    (\<forall>j<k. \<not> newton_criterion to_double D f nopts ((newton_step T f df ^^ j) initial) \<and>
            \<not> newton_derivative_zero to_double D df ((newton_step T f df ^^ j) initial)) \<and>
    newton_criterion to_double D f nopts ((newton_step T f df ^^ k) initial)
    \<longrightarrow> newton_raphson T to_double D initial f df nopts =
          \<lparr>root = (newton_step T f df ^^ k) initial, NewtonResult.iterations = k,
           NewtonResult.converged = True\<rparr>) \<and>
   (0 < NewtonOptions.max_iters nopts \<and> newton_criterion to_double D f nopts initial
    \<longrightarrow> newton_raphson T to_double D initial f df nopts =
          \<lparr>root = initial, NewtonResult.iterations = 0, NewtonResult.converged = True\<rparr>) \<and>
   (m < GradientDescentOptions.max_iters gopts \<and> gd_in_range Q b xinit ndim \<and>
    (\<forall>j<m. \<not> gd_stop T to_double D Q b ndim gopts
              ((gd_step T of_double Q b ndim gopts ^^ j) (xinit, replicate ndim (ar_zero T)))) \<and>
    gd_stop T to_double D Q b ndim gopts
      ((gd_step T of_double Q b ndim gopts ^^ m) (xinit, replicate ndim (ar_zero T)))
    \<longrightarrow> gradient_descent_quadratic T to_double of_double D Q b xinit ndim gopts =
          Some \<lparr>gd_x = fst ((gd_step T of_double Q b ndim gopts ^^ m)
                              (xinit, replicate ndim (ar_zero T))),
                iterations = m, converged = True\<rparr>) \<and>
   (0 < GradientDescentOptions.max_iters gopts \<and> gd_in_range Q b xinit ndim \<and>
    gd_stop T to_double D Q b ndim gopts (xinit, replicate ndim (ar_zero T))
    \<longrightarrow> gradient_descent_quadratic T to_double of_double D Q b xinit ndim gopts =
          Some \<lparr>gd_x = xinit, iterations = 0, converged = True\<rparr>)"
proof -
  have n: "newton_raphson T to_double D initial f df nopts =
          \<lparr>root = (newton_step T f df ^^ k) initial, NewtonResult.iterations = k,
           NewtonResult.converged = True\<rparr>"
    if "k < NewtonOptions.max_iters nopts"
      and "\<forall>j<k. \<not> newton_criterion to_double D f nopts ((newton_step T f df ^^ j) initial) \<and>
            \<not> newton_derivative_zero to_double D df ((newton_step T f df ^^ j) initial)"
      and "newton_criterion to_double D f nopts ((newton_step T f df ^^ k) initial)"
    for k
  proof -
    have "newton_loop T to_double D f df nopts 0 initial =
          newton_loop T to_double D f df nopts (0 + k) ((newton_step T f df ^^ k) initial)"
      using that(1,2) by (intro newton_loop_run) simp_all
    also have "\<dots> = \<lparr>root = (newton_step T f df ^^ k) initial, NewtonResult.iterations = 0 + k,
           NewtonResult.converged = True\<rparr>"
      using that(1,3) by (intro newton_loop_converged) simp_all
    finally show ?thesis by (simp add: newton_raphson_def)
  qed
  have g: "gradient_descent_quadratic T to_double of_double D Q b xinit ndim gopts =
          Some \<lparr>gd_x = fst ((gd_step T of_double Q b ndim gopts ^^ m)
                              (xinit, replicate ndim (ar_zero T))),
                iterations = m, converged = True\<rparr>"
    if "m < GradientDescentOptions.max_iters gopts" and "gd_in_range Q b xinit ndim"
      and "\<forall>j<m. \<not> gd_stop T to_double D Q b ndim gopts
              ((gd_step T of_double Q b ndim gopts ^^ j) (xinit, replicate ndim (ar_zero T)))"
      and "gd_stop T to_double D Q b ndim gopts
            ((gd_step T of_double Q b ndim gopts ^^ m) (xinit, replicate ndim (ar_zero T)))"
    for m
  proof -
    let ?st = "(gd_step T of_double Q b ndim gopts ^^ m) (xinit, replicate ndim (ar_zero T))"
    have "gd_loop T to_double of_double D Q b ndim gopts 0 xinit (replicate ndim (ar_zero T)) =
          gd_loop T to_double of_double D Q b ndim gopts (0 + m) (fst ?st) (snd ?st)"
      using that(1,2,3) by (intro gd_loop_run) simp_all
    also have "\<dots> = Some \<lparr>gd_x = fst ?st, iterations = 0 + m, converged = True\<rparr>"
    proof (rule gd_loop_converged)
      show "0 + m < GradientDescentOptions.max_iters gopts" using that(1) by simp
      show "gd_in_range Q b (fst ?st) ndim"
        using that(2) by (simp add: gd_in_range_funpow)
      show "gd_stop T to_double D Q b ndim gopts (fst ?st, snd ?st)"
        using that(4) by simp
    qed
    finally show ?thesis by (simp add: gradient_descent_quadratic_def)
  qed
  show ?thesis using n[of k] n[of 0] g[of m] g[of 0] by simp
qed

theorem C6_criterion_before_update_witness:
  "newton_raphson rat_arith id rat_double_ops 0 (\<lambda>x. x - 1) (\<lambda>x. 1)
     \<lparr>NewtonOptions.max_iters = 5, NewtonOptions.tol = 1 / 2\<rparr> =
     \<lparr>root = 1, NewtonResult.iterations = 1, NewtonResult.converged = True\<rparr> \<and>
   newton_raphson rat_arith id rat_double_ops 1 (\<lambda>x. x - 1) (\<lambda>x. 1)
     \<lparr>NewtonOptions.max_iters = 5, NewtonOptions.tol = 1 / 2\<rparr> =
     \<lparr>root = 1, NewtonResult.iterations = 0, NewtonResult.converged = True\<rparr> \<and>
   gradient_descent_quadratic rat_arith id id rat_double_ops [2] [- 2] [0] 1
     \<lparr>step_size = 1 / 2, max_iters = 5, tol = 1 / 2\<rparr> =
     Some \<lparr>gd_x = [1], iterations = 1, converged = True\<rparr> \<and>
   gradient_descent_quadratic rat_arith id id rat_double_ops [2] [- 2] [1] 1
     \<lparr>step_size = 1 / 2, max_iters = 5, tol = 1 / 2\<rparr> =
     Some \<lparr>gd_x = [1], iterations = 0, converged = True\<rparr>"
proof -
  let ?no = "\<lparr>NewtonOptions.max_iters = 5, NewtonOptions.tol = (1 / 2 :: rat)\<rparr>"
  let ?go = "\<lparr>step_size = (1 / 2 :: rat), max_iters = 5, tol = 1 / 2\<rparr>"
  note ev = newton_criterion_def newton_derivative_zero_def newton_step_def rat_ops
    gd_stop_def gd_criterion_def gd_step_def gd_in_range_def
    gd_gradient.simps gd_row.simps gd_update.simps Let_def
  note thm1 = C6_criterion_before_update[where k = 1 and nopts = ?no and to_double = id
      and D = rat_double_ops and f = "\<lambda>x. x - 1" and df = "\<lambda>x. 1" and T = rat_arith
      and initial = 0 and m = 1 and gopts = ?go and Q = "[2]" and b = "[- 2]" and xinit = "[0]"
      and ndim = 1 and of_double = id]
  note thm2 = C6_criterion_before_update[where k = 0 and nopts = ?no and to_double = id
      and D = rat_double_ops and f = "\<lambda>x. x - 1" and df = "\<lambda>x. 1" and T = rat_arith
      and initial = 1 and m = 0 and gopts = ?go and Q = "[2]" and b = "[- 2]" and xinit = "[1]"
      and ndim = 1 and of_double = id]
  show ?thesis using thm1 thm2 by (simp add: ev)
qed

text \<open>
  C7. \<^verbatim>\<open>newton_raphson\<close> returns a result on a zero derivative: if the derivative is
  exactly zero at the iterate of index \<open>k\<close> (below the budget, the criterion not holding
  there) it returns that iterate with \<open>iterations = k\<close> and \<open>converged = false\<close>; if
  the budget is exhausted without convergence it returns \<open>converged = false\<close> with
  \<open>iterations = max_iters\<close>.
\<close>

theorem C7_zero_derivative_and_budget:
  "(k < NewtonOptions.max_iters opts \<and>
    (\<forall>j<k. \<not> newton_criterion to_double D f opts ((newton_step T f df ^^ j) initial) \<and>
            \<not> newton_derivative_zero to_double D df ((newton_step T f df ^^ j) initial)) \<and>
    \<not> newton_criterion to_double D f opts ((newton_step T f df ^^ k) initial) \<and>
    newton_derivative_zero to_double D df ((newton_step T f df ^^ k) initial)
    \<longrightarrow> newton_raphson T to_double D initial f df opts =
          \<lparr>root = (newton_step T f df ^^ k) initial, NewtonResult.iterations = k,
           NewtonResult.converged = False\<rparr>) \<and>
   ((\<forall>j<NewtonOptions.max_iters opts.
        \<not> newton_criterion to_double D f opts ((newton_step T f df ^^ j) initial) \<and>
        \<not> newton_derivative_zero to_double D df ((newton_step T f df ^^ j) initial))
    \<longrightarrow> newton_raphson T to_double D initial f df opts =
          \<lparr>root = (newton_step T f df ^^ NewtonOptions.max_iters opts) initial,
           NewtonResult.iterations = NewtonOptions.max_iters opts,
           NewtonResult.converged = False\<rparr>)"
proof -
  have a: "newton_raphson T to_double D initial f df opts =
          \<lparr>root = (newton_step T f df ^^ k) initial, NewtonResult.iterations = k,
           NewtonResult.converged = False\<rparr>"
    if "k < NewtonOptions.max_iters opts"
      and "\<forall>j<k. \<not> newton_criterion to_double D f opts ((newton_step T f df ^^ j) initial) \<and>
            \<not> newton_derivative_zero to_double D df ((newton_step T f df ^^ j) initial)"
      and "\<not> newton_criterion to_double D f opts ((newton_step T f df ^^ k) initial)"
      and "newton_derivative_zero to_double D df ((newton_step T f df ^^ k) initial)"
  proof -
    have "newton_loop T to_double D f df opts 0 initial =
          newton_loop T to_double D f df opts (0 + k) ((newton_step T f df ^^ k) initial)"
      using that(1,2) by (intro newton_loop_run) simp_all
    also have "\<dots> = \<lparr>root = (newton_step T f df ^^ k) initial, NewtonResult.iterations = 0 + k,
           NewtonResult.converged = False\<rparr>"
      using that(1,3,4) by (intro newton_loop_derivative_zero) simp_all
    finally show ?thesis by (simp add: newton_raphson_def)
  qed
  have b: "newton_raphson T to_double D initial f df opts =
          \<lparr>root = (newton_step T f df ^^ NewtonOptions.max_iters opts) initial,
           NewtonResult.iterations = NewtonOptions.max_iters opts,
           NewtonResult.converged = False\<rparr>"
    if "\<forall>j<NewtonOptions.max_iters opts.
        \<not> newton_criterion to_double D f opts ((newton_step T f df ^^ j) initial) \<and>
        \<not> newton_derivative_zero to_double D df ((newton_step T f df ^^ j) initial)"
  proof -
    have "newton_loop T to_double D f df opts 0 initial =
          newton_loop T to_double D f df opts (0 + NewtonOptions.max_iters opts)
            ((newton_step T f df ^^ NewtonOptions.max_iters opts) initial)"
      using that by (intro newton_loop_run) simp_all
    then show ?thesis by (simp add: newton_raphson_def newton_loop_exhausted)
  qed
  show ?thesis using a b by blast
qed

theorem C7_zero_derivative_and_budget_witness:
  "newton_raphson rat_arith id rat_double_ops 1 (\<lambda>x. x * x - 2 * x + 2) (\<lambda>x. 2 * x - 2)
     \<lparr>NewtonOptions.max_iters = 5, NewtonOptions.tol = 1 / 2\<rparr> =
     \<lparr>root = 1, NewtonResult.iterations = 0, NewtonResult.converged = False\<rparr> \<and>
   newton_raphson rat_arith id rat_double_ops 0 (\<lambda>x. 1) (\<lambda>x. 1)
     \<lparr>NewtonOptions.max_iters = 2, NewtonOptions.tol = 1 / 2\<rparr> =
     \<lparr>root = - 2, NewtonResult.iterations = 2, NewtonResult.converged = False\<rparr>"
proof -
  let ?o1 = "\<lparr>NewtonOptions.max_iters = 5, NewtonOptions.tol = (1 / 2 :: rat)\<rparr>"
  let ?o2 = "\<lparr>NewtonOptions.max_iters = 2, NewtonOptions.tol = (1 / 2 :: rat)\<rparr>"
  note ev = newton_criterion_def newton_derivative_zero_def newton_step_def rat_ops
    less_2_cases_iff numeral_2_eq_2
  note thm1 = C7_zero_derivative_and_budget[where k = 0 and opts = ?o1 and to_double = id
      and D = rat_double_ops and f = "\<lambda>x. x * x - 2 * x + 2" and df = "\<lambda>x. 2 * x - 2"
      and T = rat_arith and initial = 1]
  note thm2 = C7_zero_derivative_and_budget[where k = 0 and opts = ?o2 and to_double = id
      and D = rat_double_ops and f = "\<lambda>x. 1" and df = "\<lambda>x. 1"
      and T = rat_arith and initial = 0]
  have 1: "newton_raphson rat_arith id rat_double_ops 1 (\<lambda>x. x * x - 2 * x + 2) (\<lambda>x. 2 * x - 2) ?o1 =
     \<lparr>root = 1, NewtonResult.iterations = 0, NewtonResult.converged = False\<rparr>"
    using thm1 by (simp add: ev)
  have 2: "newton_raphson rat_arith id rat_double_ops 0 (\<lambda>x. 1) (\<lambda>x. 1) ?o2 =
     \<lparr>root = - 2, NewtonResult.iterations = 2, NewtonResult.converged = False\<rparr>"
    using thm2 by (simp add: ev)
  show ?thesis using 1 2 by simp
qed

text \<open>
  C8. The lookup depends on the name only through its lower-case form, so it is
  case-insensitive; \<open>float32\<close> and \<open>fp32\<close> in any letter case give the 32-bit native
  precision; every name whose lower-case form is a key of the table gives that key's
  precision; every other name gives the error \<open>Unknown precision string\<close>, which also
  leaves the caller \<^verbatim>\<open>parse_precisions\<close>.
\<close>

theorem C8_precision_lookup:
  "(to_lower name_a = to_lower name_b \<longrightarrow>
      (precision_from_string name_a = Inr p \<longleftrightarrow> precision_from_string name_b = Inr p)) \<and>
   (to_lower name = ''float32'' \<or> to_lower name = ''fp32'' \<longrightarrow>
      precision_from_string name = Inr FP32) \<and>
   (to_lower name \<in> set (map fst precision_map) \<longrightarrow>
      map_of precision_map (to_lower name) \<noteq> None \<and>
      precision_from_string name = Inr (the (map_of precision_map (to_lower name)))) \<and>
   (to_lower name \<notin> set (map fst precision_map) \<longrightarrow>
      precision_from_string name = Inl (RuntimeError (''Unknown precision string: '' @ name)) \<and>
      (name \<in> set entries \<longrightarrow> (\<exists>e. parse_precisions entries = Inl e)))"
proof -
  have 1: "precision_from_string name_a = Inr p \<longleftrightarrow> precision_from_string name_b = Inr p"
    if "to_lower name_a = to_lower name_b"
    using that by (simp add: precision_from_string_def split: option.splits)
  have 2: "precision_from_string name = Inr FP32"
    if "to_lower name = ''float32'' \<or> to_lower name = ''fp32''"
    using that by (auto simp: precision_from_string_def precision_map_def)
  have 3: "map_of precision_map (to_lower name) \<noteq> None \<and>
      precision_from_string name = Inr (the (map_of precision_map (to_lower name)))"
    if "to_lower name \<in> set (map fst precision_map)"
  proof -
    have "map_of precision_map (to_lower name) \<noteq> None"
      using that by (simp add: map_of_eq_None_iff)
    then show ?thesis by (auto simp: precision_from_string_def)
  qed
  have 4: "precision_from_string name = Inl (RuntimeError (''Unknown precision string: '' @ name)) \<and>
      (name \<in> set entries \<longrightarrow> (\<exists>e. parse_precisions entries = Inl e))"
    if "to_lower name \<notin> set (map fst precision_map)"
    using that precision_from_string_unknown parse_precisions_unknown by blast
  show ?thesis using 1 2 3 4 by blast
qed

theorem C8_precision_lookup_witness:
  "to_lower ''FLOAT32'' = ''float32'' \<and> precision_from_string ''FLOAT32'' = Inr FP32 \<and>
   to_lower ''Fp32'' = ''fp32'' \<and> precision_from_string ''Fp32'' = Inr FP32 \<and>
   precision_from_string ''BFloat16'' = Inr BF16 \<and>
   to_lower ''Half'' \<notin> set (map fst precision_map) \<and>
   precision_from_string ''Half'' = Inl (RuntimeError ''Unknown precision string: Half'') \<and>
   parse_precisions [''fp64'', ''Half'', ''fp32''] =
     Inl (RuntimeError ''Unknown precision string: Half'')"
proof -
  note ev = to_lower_def tolower_def char_of_def bit_Suc_0_iff
  have l: "to_lower ''FLOAT32'' = ''float32''" "to_lower ''Fp32'' = ''fp32''"
    "to_lower ''BFloat16'' = ''bfloat16''" "to_lower ''bfloat16'' = ''bfloat16''"
    "to_lower ''Half'' = ''half''"
    by (simp_all add: ev)
  have n: "to_lower ''Half'' \<notin> set (map fst precision_map)"
    by (simp add: l precision_map_def)
  have b: "precision_from_string ''bfloat16'' = Inr BF16"
    by (simp add: precision_from_string_def l precision_map_def)
  have f: "precision_from_string ''fp64'' = Inr FP64"
    by (simp add: precision_from_string_def ev precision_map_def)
  show ?thesis
    using l n b f C8_precision_lookup[of "''FLOAT32''" "''FLOAT32''" FP32 "''FLOAT32''" "[]"]
      C8_precision_lookup[of "''BFloat16''" "''bfloat16''" BF16 "''Fp32''" "[]"]
      C8_precision_lookup[of "''Half''" "''Half''" FP32 "''Half''" "[''fp64'', ''Half'', ''fp32'']"]
    by simp
qed

text \<open>
  C9. \<^verbatim>\<open>fir_filter<double>\<close> with the default options returns \<open>[0.5, 1.5, 2.5, 3.5]\<close> for
  \<open>h = [0.5, 0.5]\<close>, \<open>x = [1, 2, 3, 4]\<close>, and returns \<open>x = [1, 2, 3]\<close> unchanged for
  \<open>h = [1.0]\<close>; the literals are the doubles with exactly these values.
\<close>

theorem C9_fir_reference_cases:
  "fir_filter_double [dbl (1 / 2), dbl (1 / 2)] [dbl 1, dbl 2, dbl 3, dbl 4] default_FIROptions
     = [dbl (1 / 2), dbl (3 / 2), dbl (5 / 2), dbl (7 / 2)] \<and>
   fir_filter_double [dbl 1] [dbl 1, dbl 2, dbl 3] default_FIROptions = [dbl 1, dbl 2, dbl 3] \<and>
   [dbl (1 / 2), dbl (3 / 2), dbl (5 / 2), dbl (7 / 2), dbl 1, dbl 2, dbl 3, dbl 4] =
     [Finite False (1 / 2), Finite False (3 / 2), Finite False (5 / 2), Finite False (7 / 2),
      Finite False 1, Finite False 2, Finite False 3, Finite False 4]"
  unfolding dbls
  by (simp add: fir_filter_double_def fir_filter_def default_FIROptions_def double_arith_def
      fp_arith_def fp_eval fir_samples.simps fir_taps.simps)

end
